theory Spec2Isabelle
  imports Main "HOL-Library.Word" "HOL-Library.Sublist"
begin

unbundle bit_operations_syntax

text \<open>
  A shallow embedding of \<open>fdt.c\<close> (locating a flattened device tree in a buffer,
  validating its header, and looking a property up by path) and the properties proved
  of it. Each function keeps its name; \<open>image\<close> and \<open>size\<close> are constants of HOL,
  so the buffer is \<open>img\<close> or \<open>image_buf\<close> and a size is \<open>sz\<close>.
\<close>

section \<open>Memory, faults and big-endian reads\<close>

text \<open>
  The C code works on a caller-supplied buffer through raw pointers. The buffer is
  modelled as a list of bytes (a \<open>char\<close> is an 8-bit byte), a pointer into it as
  a byte offset. A read that leaves the buffer is undefined behaviour in C; here it is
  the value \<open>Inl OutOfBounds\<close>. Dereferencing a NULL pointer is \<open>Inl NullDeref\<close>.
  Output written with \<open>printf\<close> is not modelled, and neither is \<open>show_fdt_prop\<close>,
  which only prints.
\<close>

type_synonym byte = char

datatype fault = OutOfBounds | NullDeref

definition bind_f :: "fault + 'a \<Rightarrow> ('a \<Rightarrow> fault + 'b) \<Rightarrow> fault + 'b" where
  "bind_f m k = (case m of Inl f \<Rightarrow> Inl f | Inr x \<Rightarrow> k x)"

definition rd8 :: "byte list \<Rightarrow> nat \<Rightarrow> fault + byte" where
  "rd8 m p = (if p < length m then Inr (m ! p) else Inl OutOfBounds)"

text \<open>\<open>be32toh( *(uint32_t * )(m + p))\<close>: four bytes, most significant first.\<close>

definition be32_val :: "byte list \<Rightarrow> nat \<Rightarrow> 32 word" where
  "be32_val m p =
     of_char (m ! p) * 2 ^ 24 + of_char (m ! (p + 1)) * 2 ^ 16
       + of_char (m ! (p + 2)) * 2 ^ 8 + of_char (m ! (p + 3))"

definition be32 :: "byte list \<Rightarrow> nat \<Rightarrow> fault + 32 word" where
  "be32 m p = (if p + 4 \<le> length m then Inr (be32_val m p) else Inl OutOfBounds)"

section \<open>Header validation: \<open>get_fdt_totalsize\<close>\<close>

definition FDT_MAGIC :: "32 word" where
  "FDT_MAGIC = 0xd00dfeed"

definition INT_MAX :: "32 word" where
  "INT_MAX = 0x7fffffff"

text \<open>\<open>sizeof(fdt_header_t)\<close>: ten packed 32-bit fields.\<close>

definition hdrsize :: "32 word" where
  "hdrsize = 40"

text \<open>
  Field offsets of \<open>fdt_header_t\<close>: magic 0, totalsize 4, off_dt_struct 8,
  off_dt_strings 12, off_mem_rsvmap 16, version 20, last_comp_version 24,
  boot_cpuid_phys 28, size_dt_strings 32, size_dt_struct 36. All locals are
  \<open>uint32_t\<close>, so the two sums wrap modulo \<open>2 ^ 32\<close>.
\<close>

definition get_fdt_totalsize :: "byte list \<Rightarrow> nat \<Rightarrow> bool \<Rightarrow> fault + int" where
  "get_fdt_totalsize img offset check =
     bind_f (be32 img offset) (\<lambda>magic.
     if magic \<noteq> FDT_MAGIC then Inr (- 1) else
     bind_f (be32 img (offset + 4)) (\<lambda>totalsize.
     if totalsize \<ge> INT_MAX \<or> totalsize < hdrsize + 128 then Inr (- 1) else
     if \<not> check then Inr (sint totalsize) else
     bind_f (be32 img (offset + 20)) (\<lambda>version.
     bind_f (be32 img (offset + 24)) (\<lambda>last_comp_version.
     if version \<noteq> 17 \<or> last_comp_version \<noteq> 16 then Inr (- 1) else
     bind_f (be32 img (offset + 8)) (\<lambda>off_dt_struct.
     bind_f (be32 img (offset + 36)) (\<lambda>size_dt_struct.
     if off_dt_struct \<le> hdrsize \<or> off_dt_struct \<ge> totalsize then Inr (- 1) else
     if off_dt_struct + size_dt_struct > totalsize then Inr (- 1) else
     bind_f (be32 img (offset + 12)) (\<lambda>off_dt_strings.
     bind_f (be32 img (offset + 32)) (\<lambda>size_dt_strings.
     if off_dt_strings \<le> hdrsize \<or> off_dt_strings \<ge> totalsize then Inr (- 1) else
     if off_dt_strings + size_dt_strings > totalsize then Inr (- 1) else
     bind_f (be32 img (offset + 28)) (\<lambda>boot_cpuid_phys.
     if boot_cpuid_phys \<noteq> 0 then Inr (- 1) else
     Inr (sint totalsize))))))))))"

section \<open>Blob locator: \<open>find_fdt_offset\<close>\<close>

text \<open>
  The loop \<open>for (pos = 0; pos < size - sizeof(fdt_header_t) - 8; pos++)\<close>. Both
  \<open>pos\<close> and the bound are \<open>size_t\<close> (64-bit, unsigned): the subtraction wraps when
  \<open>size\<close> is below 48. \<open>(int)pos\<close> keeps the low 32 bits.
\<close>

function find_fdt_loop :: "byte list \<Rightarrow> 64 word \<Rightarrow> int \<Rightarrow> 64 word \<Rightarrow> fault + int" where
  "find_fdt_loop img bound max_fdt_size pos =
     (if pos < bound then
        bind_f (be32 img (unat pos)) (\<lambda>w.
        if w \<noteq> FDT_MAGIC then find_fdt_loop img bound max_fdt_size (pos + 1) else
        bind_f (get_fdt_totalsize (drop (unat pos) img) 0 True) (\<lambda>totalsize.
        if totalsize \<le> 0 then find_fdt_loop img bound max_fdt_size (pos + 1) else
        if max_fdt_size > 0 \<and> totalsize > max_fdt_size
        then find_fdt_loop img bound max_fdt_size (pos + 1)
        else Inr (sint (ucast pos :: 32 word))))
      else Inr (- 1))"
  by pat_completeness auto
termination
proof (relation "measure (\<lambda>(img, bound, max_fdt_size, pos). unat bound - unat pos)")
  have step: "unat bound - unat (pos + 1) < unat bound - unat pos"
    if lt: "pos < bound" for pos bound :: "64 word"
  proof -
    have "unat (pos + 1) = unat pos + 1"
      using lt
      by (metis (no_types, lifting) add.commute add_0 inc_i inc_le
          unat_plus_simple unsigned_0 unsigned_1 word_gt_0)
    with lt show ?thesis
      by (simp add: word_less_nat_alt)
  qed
  show "wf (measure (\<lambda>(img :: byte list, bound :: 64 word, max_fdt_size :: int, pos :: 64 word).
      unat bound - unat pos))"
    by simp
  show "((img, bound, m, pos + 1), img, bound, m, pos)
       \<in> measure (\<lambda>(img, bound, max_fdt_size, pos). unat bound - unat pos)"
    if "pos < bound" for img :: "byte list" and bound pos :: "64 word" and m :: int
    using that by (simp add: step)
  then show "((img, bound, m, pos + 1), img, bound, m, pos)
       \<in> measure (\<lambda>(img, bound, max_fdt_size, pos). unat bound - unat pos)"
    if "pos < bound" for img :: "byte list" and bound pos :: "64 word" and m :: int
    using that by simp
  then show "((img, bound, m, pos + 1), img, bound, m, pos)
       \<in> measure (\<lambda>(img, bound, max_fdt_size, pos). unat bound - unat pos)"
    if "pos < bound" for img :: "byte list" and bound pos :: "64 word" and m :: int
    using that by simp
qed

definition find_fdt_offset :: "byte list \<Rightarrow> 64 word \<Rightarrow> int \<Rightarrow> fault + int" where
  "find_fdt_offset img sz max_fdt_size =
     find_fdt_loop img (sz - 40 - 8) max_fdt_size 0"

section \<open>C strings\<close>

text \<open>
  A name inside the buffer is the bytes from an offset up to the next NUL; running off
  the buffer before a NUL is a fault. The caller's \<open>path\<close> and \<open>name\<close> arguments are
  HOL strings standing for the memory \<open>s @ [NUL]\<close>: \<open>strlen\<close> stops at the first
  NUL, and \<open>c_at s i\<close> is the byte at index \<open>i\<close> (the code never indexes past the
  terminator).
\<close>

definition NUL :: byte where
  "NUL = CHR 0x00"

definition c_strlen :: "byte list \<Rightarrow> nat \<Rightarrow> fault + nat" where
  "c_strlen m p =
     (let n = length (takeWhile (\<lambda>c. c \<noteq> NUL) (drop p m))
      in if p + n < length m then Inr n else Inl OutOfBounds)"

definition strlen_s :: "string \<Rightarrow> nat" where
  "strlen_s s = length (takeWhile (\<lambda>c. c \<noteq> NUL) s)"

definition c_at :: "string \<Rightarrow> nat \<Rightarrow> byte" where
  "c_at s i = (if i < length s then s ! i else NUL)"

text \<open>\<open>strcmp(m + p, s) == 0\<close>: byte by byte, stopping at the first difference or NUL.\<close>

fun c_strcmp :: "byte list \<Rightarrow> nat \<Rightarrow> string \<Rightarrow> fault + bool" where
  "c_strcmp m p [] = bind_f (rd8 m p) (\<lambda>c. Inr (c = NUL))"
| "c_strcmp m p (c2 # s) =
     bind_f (rd8 m p) (\<lambda>c.
       if c \<noteq> c2 then Inr False
       else if c = NUL then Inr True
       else c_strcmp m (p + 1) s)"

text \<open>\<open>strncmp(s + i, m + p, n) == 0\<close>.\<close>

fun c_strncmp :: "string \<Rightarrow> nat \<Rightarrow> byte list \<Rightarrow> nat \<Rightarrow> nat \<Rightarrow> fault + bool" where
  "c_strncmp s i m p 0 = Inr True"
| "c_strncmp s i m p (Suc n) =
     bind_f (rd8 m p) (\<lambda>c.
       if c_at s i \<noteq> c then Inr False
       else if c = NUL then Inr True
       else c_strncmp s (i + 1) m (p + 1) n)"

section \<open>Parse context\<close>

text \<open>
  \<open>fdt_ctx_t\<close>. The three pointers \<open>hdr\<close>, \<open>image\<close> and \<open>img\<close> are the buffer
  itself; \<open>tree\<close>, \<open>strings\<close>, \<open>pos\<close>, \<open>res\<close> and the entries of \<open>path\<close> are
  byte offsets into it, \<open>None\<close> being NULL.
\<close>

definition MAX_FDT_DEPTH :: int where
  "MAX_FDT_DEPTH = 32"

record fdt_ctx =
  image_buf :: "byte list"
  image_size :: "32 word"
  tree :: nat
  tree_size :: "32 word"
  strings :: nat
  strings_size :: "32 word"
  depth :: int
  path :: "nat option list"
  pos :: nat
  target_path :: "string option"
  target_depth :: int
  target_name :: "string option"
  res :: "nat option"
  show_error :: bool
  show_tree :: bool

section \<open>Path depth: \<open>get_path_depth\<close>\<close>

text \<open>
  \<open>tp\<close> is the path after the optional \<open>tp++\<close>; \<open>dn\<close> is kept as an index
  relative to \<open>tp\<close>, so \<open>dnlen = i - dn\<close> (\<open>dn \<le> i\<close> throughout).
\<close>

function path_depth_loop :: "string \<Rightarrow> nat \<Rightarrow> nat \<Rightarrow> nat \<Rightarrow> int \<Rightarrow> int" where
  "path_depth_loop tp tplen i dn d =
     (if i \<le> tplen then
        if c_at tp i = CHR ''/'' \<or> i = tplen then
          if i - dn = 0 then - 12
          else path_depth_loop tp tplen (i + 1) (i + 1) (d + 1)
        else path_depth_loop tp tplen (i + 1) dn d
      else d)"
  by pat_completeness auto
termination
  by (relation "measure (\<lambda>(tp, tplen, i, dn, d). Suc tplen - i)") auto

definition get_path_depth :: "string \<Rightarrow> int" where
  "get_path_depth p =
     (let tplen0 = strlen_s p;
          lead = (c_at p 0 = CHR ''/'');
          tp = (if lead then drop 1 p else p);
          tplen1 = (if lead then tplen0 - 1 else tplen0)
      in if tplen1 = 0 then 0
         else let tplen2 = (if c_at tp (tplen1 - 1) = CHR ''/'' then tplen1 - 1 else tplen1)
              in if tplen2 = 0 then 0
                 else path_depth_loop tp tplen2 0 0 0)"

section \<open>Path matcher: \<open>check_search_target\<close>\<close>

text \<open>\<open>ctx->path[d]\<close>, dereferenced: the array has \<open>MAX_FDT_DEPTH + 1\<close> entries.\<close>

definition path_entry :: "nat option list \<Rightarrow> nat \<Rightarrow> fault + nat" where
  "path_entry pth d =
     (if d < length pth then (case pth ! d of None \<Rightarrow> Inl NullDeref | Some np \<Rightarrow> Inr np)
      else Inl OutOfBounds)"

text \<open>
  The segment loop of \<open>check_search_target\<close>: \<open>m\<close> is the buffer, \<open>pth\<close> the
  ancestor stack, \<open>d\<close> the local \<open>depth\<close> counting segments.
\<close>

function search_loop ::
  "byte list \<Rightarrow> nat option list \<Rightarrow> string \<Rightarrow> nat \<Rightarrow> nat \<Rightarrow> nat \<Rightarrow> nat \<Rightarrow> fault + int" where
  "search_loop m pth tp tplen i dn d =
     (if i \<le> tplen then
        if c_at tp i = CHR ''/'' \<or> i = tplen then
          let dnlen = i - dn in
          if dnlen = 0 then Inr (- 12)
          else if c_at tp (dn + dnlen - 1) = CHR ''*'' then
            bind_f (path_entry pth d) (\<lambda>np.
            bind_f (c_strlen m np) (\<lambda>l.
            if l < dnlen - 1 then Inr (- 6) else
            bind_f (c_strncmp tp dn m np (dnlen - 1)) (\<lambda>eq.
            if \<not> eq then Inr (- 7)
            else search_loop m pth tp tplen (i + 1) (i + 1) (d + 1))))
          else
            bind_f (path_entry pth d) (\<lambda>np.
            bind_f (c_strlen m np) (\<lambda>l.
            if l \<noteq> dnlen then Inr (- 2) else
            bind_f (c_strncmp tp dn m np dnlen) (\<lambda>eq.
            if \<not> eq then Inr (- 3)
            else search_loop m pth tp tplen (i + 1) (i + 1) (d + 1))))
        else search_loop m pth tp tplen (i + 1) dn d
      else Inr 0)"
  by pat_completeness auto
termination
  by (relation "measure (\<lambda>(m, pth, tp, tplen, i, dn, d). Suc tplen - i)") auto

text \<open>
  \<open>prop\<close> is the offset of the property record: tag at \<open>prop\<close>, \<open>len\<close> at
  \<open>prop + 4\<close>, \<open>nameoff\<close> at \<open>prop + 8\<close>, data from \<open>prop + 12\<close>. The initialiser
  \<open>strlen(ctx->target_path)\<close> runs before every check.
\<close>

definition check_search_target :: "fdt_ctx \<Rightarrow> nat \<Rightarrow> fault + int" where
  "check_search_target ctx prop =
     (case target_path ctx of None \<Rightarrow> Inl NullDeref | Some p \<Rightarrow>
      (case target_name ctx of None \<Rightarrow> Inr (- 1) | Some tname \<Rightarrow>
       if depth ctx \<noteq> target_depth ctx then Inr (- 1) else
       bind_f (be32 (image_buf ctx) (prop + 8)) (\<lambda>nameoff.
       bind_f (c_strcmp (image_buf ctx) (strings ctx + unat nameoff) tname) (\<lambda>eq.
       if \<not> eq then Inr (- 1) else
       if target_depth ctx \<le> 0 then Inr (- 1) else
       let tplen0 = strlen_s p;
           lead = (c_at p 0 = CHR ''/'');
           tp = (if lead then drop 1 p else p);
           tplen1 = (if lead then tplen0 - 1 else tplen0)
       in if tplen1 = 0 then Inr (- 10)
          else let tplen2 = (if c_at tp (tplen1 - 1) = CHR ''/'' then tplen1 - 1 else tplen1)
               in if tplen2 = 0 then Inr (- 11)
                  else search_loop (image_buf ctx) (path ctx) tp tplen2 0 0 0))))"

section \<open>Tag-stream walker: \<open>enum_fdt_nodes\<close>\<close>

definition FDT_BEGIN_NODE :: "32 word" where "FDT_BEGIN_NODE = 1"
definition FDT_END_NODE :: "32 word" where "FDT_END_NODE = 2"
definition FDT_PROP :: "32 word" where "FDT_PROP = 3"
definition FDT_NOP :: "32 word" where "FDT_NOP = 4"
definition FDT_END :: "32 word" where "FDT_END = 9"

text \<open>
  The first half of the \<open>FDT_BEGIN_NODE\<close> case (the name check and the push):
  \<open>Inr None\<close> is its \<open>return NULL\<close>, \<open>Inr (Some ctx')\<close> the context it goes on with.
\<close>

definition enter_node :: "fdt_ctx \<Rightarrow> fault + fdt_ctx option" where
  "enter_node ctx =
     bind_f (rd8 (image_buf ctx) (pos ctx + 4)) (\<lambda>c0.
     if depth ctx < 0 then
       (if c0 \<noteq> NUL then Inr None else Inr (Some (ctx\<lparr>depth := 0\<rparr>)))
     else
       (if c0 = NUL then Inr None
        else if nat (depth ctx) < length (path ctx)
        then Inr (Some (ctx\<lparr>path := (path ctx)[nat (depth ctx) := Some (pos ctx + 4)],
                              depth := depth ctx + 1\<rparr>))
        else Inl OutOfBounds))"

text \<open>
  The walker returns a pointer (always NULL, \<open>None\<close>) and leaves its result in the
  context. One unit of fuel is one pass of the \<open>while (true)\<close> loop or one recursive
  call; \<open>None\<close> at the outer level means the fuel ran out.
\<close>

fun enum_fdt_nodes :: "nat \<Rightarrow> fdt_ctx \<Rightarrow> (fault + nat option \<times> fdt_ctx) option" where
  "enum_fdt_nodes 0 ctx = None"
| "enum_fdt_nodes (Suc n) ctx =
     (case be32 (image_buf ctx) (pos ctx) of Inl f \<Rightarrow> Some (Inl f) | Inr tag \<Rightarrow>
      if tag = FDT_BEGIN_NODE then
        (case enter_node ctx of Inl f \<Rightarrow> Some (Inl f)
         | Inr None \<Rightarrow> Some (Inr (None, ctx))
         | Inr (Some ctx1) \<Rightarrow>
             if depth ctx1 = MAX_FDT_DEPTH then Some (Inr (None, ctx1)) else
             (case c_strlen (image_buf ctx1) (pos ctx1 + 4) of Inl f \<Rightarrow> Some (Inl f)
              | Inr len \<Rightarrow>
                  (case enum_fdt_nodes n (ctx1\<lparr>pos := pos ctx1 + 4 * (1 + (len + 4) div 4)\<rparr>) of
                     None \<Rightarrow> None
                   | Some (Inl f) \<Rightarrow> Some (Inl f)
                   | Some (Inr (None, c)) \<Rightarrow> Some (Inr (None, c))
                   | Some (Inr (Some q, c)) \<Rightarrow> enum_fdt_nodes n c)))
      else if tag = FDT_PROP then
        (case be32 (image_buf ctx) (pos ctx + 8) of Inl f \<Rightarrow> Some (Inl f) | Inr nameoff \<Rightarrow>
         (case be32 (image_buf ctx) (pos ctx + 4) of Inl f \<Rightarrow> Some (Inl f) | Inr sz \<Rightarrow>
          if sz \<ge> INT_MAX then Some (Inr (None, ctx)) else
          (case check_search_target ctx (pos ctx) of Inl f \<Rightarrow> Some (Inl f)
           | Inr r \<Rightarrow>
               if r = 0 then Some (Inr (None, ctx\<lparr>res := Some (pos ctx)\<rparr>))
               else enum_fdt_nodes n (ctx\<lparr>pos := pos ctx + 12 + 4 * unat ((sz + 3) div 4)\<rparr>))))
      else if tag = FDT_NOP then
        enum_fdt_nodes n (ctx\<lparr>pos := pos ctx + 4\<rparr>)
      else if tag = FDT_END_NODE then
        enum_fdt_nodes n
          ((if depth ctx > 0 then ctx\<lparr>depth := depth ctx - 1\<rparr> else ctx)\<lparr>pos := pos ctx + 4\<rparr>)
      else if tag = FDT_END then Some (Inr (None, ctx))
      else Some (Inr (None, ctx)))"

section \<open>Accessor API\<close>

text \<open>\<open>memset(ctx, 0, sizeof(fdt_ctx_t))\<close>: every pointer NULL, every number 0.\<close>

definition zero_ctx :: fdt_ctx where
  "zero_ctx = \<lparr>image_buf = [], image_size = 0, tree = 0, tree_size = 0, strings = 0,
     strings_size = 0, depth = 0, path = replicate 33 None, pos = 0, target_path = None,
     target_depth = 0, target_name = None, res = None, show_error = False,
     show_tree = False\<rparr>"

definition init_fdt_ctx :: "byte list \<Rightarrow> fault + int \<times> fdt_ctx" where
  "init_fdt_ctx img =
     bind_f (get_fdt_totalsize img 0 True) (\<lambda>sz.
     if sz \<le> 0 then Inr (- 1, zero_ctx) else
     bind_f (be32 img 8) (\<lambda>off_dt_struct.
     bind_f (be32 img 36) (\<lambda>size_dt_struct.
     bind_f (be32 img 12) (\<lambda>off_dt_strings.
     bind_f (be32 img 32) (\<lambda>size_dt_strings.
     Inr (0, zero_ctx\<lparr>image_buf := img, image_size := word_of_int sz,
                      tree := unat off_dt_struct, tree_size := size_dt_struct,
                      strings := unat off_dt_strings, strings_size := size_dt_strings\<rparr>))))))"

text \<open>
  \<open>get_fdt_prop\<close>: \<open>path\<close> and \<open>name\<close> may be NULL (\<open>None\<close>). The result is the
  offset of the matched property record, or NULL.
\<close>

definition get_fdt_prop ::
  "nat \<Rightarrow> byte list \<Rightarrow> string option \<Rightarrow> string option \<Rightarrow> (fault + nat option) option" where
  "get_fdt_prop fuel img pth name =
     (case init_fdt_ctx img of Inl f \<Rightarrow> Some (Inl f) | Inr (rc, ctx0) \<Rightarrow>
      if rc \<noteq> 0 then Some (Inr None) else
      let ctx1 = (if name = None then ctx0\<lparr>show_error := True, show_tree := True\<rparr> else ctx0) in
      if name = None \<and> pth = None then Some (Inr None) else
      let td = (case pth of None \<Rightarrow> 0 | Some p \<Rightarrow> get_path_depth p) in
      if pth \<noteq> None \<and> td < 0 then Some (Inr None) else
      let ctx2 = (if pth \<noteq> None
                  then ctx1\<lparr>target_depth := td, target_path := pth, target_name := name\<rparr>
                  else ctx1);
          ctx3 = ctx2\<lparr>pos := tree ctx2\<rparr>
      in (case be32 img (pos ctx3) of Inl f \<Rightarrow> Some (Inl f) | Inr w0 \<Rightarrow>
          if w0 \<noteq> FDT_BEGIN_NODE then Some (Inr None) else
          (case be32 img (pos ctx3 + 4) of Inl f \<Rightarrow> Some (Inl f) | Inr w1 \<Rightarrow>
           if w1 \<noteq> 0 then Some (Inr None) else
           (case enum_fdt_nodes fuel (ctx3\<lparr>res := None, depth := - 1\<rparr>) of
              None \<Rightarrow> None
            | Some (Inl f) \<Rightarrow> Some (Inl f)
            | Some (Inr (r, c)) \<Rightarrow>
                if name \<noteq> None \<and> res c \<noteq> None then Some (Inr (res c)) else Some (Inr None)))))"

text \<open>
  \<open>get_fdt_prop_val\<close> returns the data pointer and stores the length through
  \<open>size\<close>; both callers pass a non-NULL \<open>size\<close>, so the pair is returned.
\<close>

definition get_fdt_prop_val ::
  "nat \<Rightarrow> byte list \<Rightarrow> string option \<Rightarrow> string option \<Rightarrow> (fault + (nat \<times> int) option) option" where
  "get_fdt_prop_val fuel img pth name =
     (case get_fdt_prop fuel img pth name of None \<Rightarrow> None
      | Some (Inl f) \<Rightarrow> Some (Inl f)
      | Some (Inr None) \<Rightarrow> Some (Inr None)
      | Some (Inr (Some prop)) \<Rightarrow>
          (case be32 img (prop + 4) of Inl f \<Rightarrow> Some (Inl f)
           | Inr len \<Rightarrow> Some (Inr (Some (prop + 12, sint len)))))"

text \<open>\<open>get_fdt_prop_u32\<close> returns \<open>int64_t\<close>: the decoded \<open>uint32_t\<close> widens without sign.\<close>

definition get_fdt_prop_u32 ::
  "nat \<Rightarrow> byte list \<Rightarrow> string option \<Rightarrow> string option \<Rightarrow> (fault + int) option" where
  "get_fdt_prop_u32 fuel img pth name =
     (case get_fdt_prop_val fuel img pth name of None \<Rightarrow> None
      | Some (Inl f) \<Rightarrow> Some (Inl f)
      | Some (Inr None) \<Rightarrow> Some (Inr (- 1))
      | Some (Inr (Some (val, sz))) \<Rightarrow>
          if sz = 4 then (case be32 img val of Inl f \<Rightarrow> Some (Inl f) | Inr w \<Rightarrow> Some (Inr (uint w)))
          else Some (Inr (- 1)))"

definition get_fdt_prop_str ::
  "nat \<Rightarrow> byte list \<Rightarrow> string option \<Rightarrow> string option \<Rightarrow> (fault + nat option) option" where
  "get_fdt_prop_str fuel img pth name =
     (case get_fdt_prop_val fuel img pth name of None \<Rightarrow> None
      | Some (Inl f) \<Rightarrow> Some (Inl f)
      | Some (Inr None) \<Rightarrow> Some (Inr None)
      | Some (Inr (Some (val, sz))) \<Rightarrow>
          if sz > 0 then
            (case rd8 img (val + nat (sz - 1)) of Inl f \<Rightarrow> Some (Inl f)
             | Inr c \<Rightarrow> if c = NUL then Some (Inr (Some val)) else Some (Inr None))
          else Some (Inr None))"

section \<open>The checks of strict validation\<close>

text \<open>
  The conjunction of the checks that \<open>get_fdt_totalsize\<close> makes with \<open>check\<close> set, on
  the header fields read at \<open>offset\<close>. The two containment sums are 32-bit sums.
\<close>

definition strict_checks :: "byte list \<Rightarrow> nat \<Rightarrow> bool" where
  "strict_checks img offset =
     (let totalsize = be32_val img (offset + 4);
          off_dt_struct = be32_val img (offset + 8);
          off_dt_strings = be32_val img (offset + 12);
          size_dt_strings = be32_val img (offset + 32);
          size_dt_struct = be32_val img (offset + 36)
      in be32_val img offset = FDT_MAGIC
         \<and> hdrsize + 128 \<le> totalsize \<and> totalsize < INT_MAX
         \<and> be32_val img (offset + 20) = 17 \<and> be32_val img (offset + 24) = 16
         \<and> hdrsize < off_dt_struct \<and> off_dt_struct < totalsize
         \<and> off_dt_struct + size_dt_struct \<le> totalsize
         \<and> hdrsize < off_dt_strings \<and> off_dt_strings < totalsize
         \<and> off_dt_strings + size_dt_strings \<le> totalsize
         \<and> be32_val img (offset + 28) = 0)"

section \<open>One pass of the walker's loop\<close>

text \<open>
  A description of a single pass of \<open>while (true)\<close> in \<open>enum_fdt_nodes\<close>, used in the
  proofs: \<open>Inr (Inl c)\<close> when the pass returns with context \<open>c\<close>, \<open>Inr (Inr c)\<close>
  when the walk goes on from \<open>c\<close> (by \<open>continue\<close> or by the recursive call). Lemma
  \<open>enum_fdt_nodes_Suc\<close> below shows that the walker is the iteration of this pass.
\<close>

definition walk_step :: "fdt_ctx \<Rightarrow> fault + (fdt_ctx + fdt_ctx)" where
  "walk_step ctx =
     (case be32 (image_buf ctx) (pos ctx) of Inl f \<Rightarrow> Inl f | Inr tag \<Rightarrow>
      if tag = FDT_BEGIN_NODE then
        (case enter_node ctx of Inl f \<Rightarrow> Inl f
         | Inr None \<Rightarrow> Inr (Inl ctx)
         | Inr (Some ctx1) \<Rightarrow>
             if depth ctx1 = MAX_FDT_DEPTH then Inr (Inl ctx1) else
             (case c_strlen (image_buf ctx1) (pos ctx1 + 4) of Inl f \<Rightarrow> Inl f
              | Inr len \<Rightarrow> Inr (Inr (ctx1\<lparr>pos := pos ctx1 + 4 * (1 + (len + 4) div 4)\<rparr>))))
      else if tag = FDT_PROP then
        (case be32 (image_buf ctx) (pos ctx + 8) of Inl f \<Rightarrow> Inl f | Inr nameoff \<Rightarrow>
         (case be32 (image_buf ctx) (pos ctx + 4) of Inl f \<Rightarrow> Inl f | Inr sz \<Rightarrow>
          if sz \<ge> INT_MAX then Inr (Inl ctx) else
          (case check_search_target ctx (pos ctx) of Inl f \<Rightarrow> Inl f
           | Inr r \<Rightarrow>
               if r = 0 then Inr (Inl (ctx\<lparr>res := Some (pos ctx)\<rparr>))
               else Inr (Inr (ctx\<lparr>pos := pos ctx + 12 + 4 * unat ((sz + 3) div 4)\<rparr>)))))
      else if tag = FDT_NOP then Inr (Inr (ctx\<lparr>pos := pos ctx + 4\<rparr>))
      else if tag = FDT_END_NODE then
        Inr (Inr ((if depth ctx > 0 then ctx\<lparr>depth := depth ctx - 1\<rparr> else ctx)
                    \<lparr>pos := pos ctx + 4\<rparr>))
      else Inr (Inl ctx))"

text \<open>What a pass that goes on keeps and changes, and what a pass that returns leaves.\<close>

definition step_next_facts :: "fdt_ctx \<Rightarrow> fdt_ctx \<Rightarrow> bool" where
  "step_next_facts ctx c \<longleftrightarrow>
     image_buf c = image_buf ctx \<and> pos ctx < pos c
     \<and> pos ctx + 4 \<le> length (image_buf ctx) \<and> res c = res ctx
     \<and> target_depth c = target_depth ctx \<and> target_path c = target_path ctx
     \<and> target_name c = target_name ctx \<and> strings c = strings ctx
     \<and> (0 \<le> depth ctx \<longrightarrow> 0 \<le> depth c)
     \<and> (depth ctx < MAX_FDT_DEPTH \<longrightarrow> depth c < MAX_FDT_DEPTH)"

definition step_stop_facts :: "fdt_ctx \<Rightarrow> fdt_ctx \<Rightarrow> bool" where
  "step_stop_facts ctx c \<longleftrightarrow>
     image_buf c = image_buf ctx \<and> pos c = pos ctx
     \<and> target_depth c = target_depth ctx
     \<and> (res c = res ctx \<or>
         (res c = Some (pos ctx) \<and> be32 (image_buf ctx) (pos ctx) = Inr FDT_PROP
          \<and> check_search_target c (pos ctx) = Inr 0))
     \<and> (0 \<le> depth ctx \<longrightarrow> 0 \<le> depth c)
     \<and> (depth ctx < MAX_FDT_DEPTH \<longrightarrow> depth c \<le> MAX_FDT_DEPTH)"

section \<open>Invocations of the walker on the call stack\<close>

text \<open>
  \<open>enum_fdt_nodes\<close> calls itself at every \<open>FDT_BEGIN_NODE\<close> it enters (fdt.c, line
  316) and comes back from that call only when the whole walk ends: every \<open>return\<close> is
  \<open>return NULL\<close>, which the caller passes on, and \<open>FDT_END_NODE\<close> does not return
  but goes on in the callee. \<open>enum_fdt_frames\<close> is \<open>enum_fdt_nodes\<close> with one more
  component in its result: the greatest number of invocations of the function that
  were alive at the same time during the call, the call itself included. A pass of
  the loop that goes on by \<open>continue\<close> stays in the same invocation.
\<close>

fun enum_fdt_frames :: "nat \<Rightarrow> fdt_ctx \<Rightarrow> (fault + nat option \<times> fdt_ctx \<times> nat) option" where
  "enum_fdt_frames 0 ctx = None"
| "enum_fdt_frames (Suc n) ctx =
     (case be32 (image_buf ctx) (pos ctx) of Inl f \<Rightarrow> Some (Inl f) | Inr tag \<Rightarrow>
      if tag = FDT_BEGIN_NODE then
        (case enter_node ctx of Inl f \<Rightarrow> Some (Inl f)
         | Inr None \<Rightarrow> Some (Inr (None, ctx, 1))
         | Inr (Some ctx1) \<Rightarrow>
             if depth ctx1 = MAX_FDT_DEPTH then Some (Inr (None, ctx1, 1)) else
             (case c_strlen (image_buf ctx1) (pos ctx1 + 4) of Inl f \<Rightarrow> Some (Inl f)
              | Inr len \<Rightarrow>
                  (case enum_fdt_frames n (ctx1\<lparr>pos := pos ctx1 + 4 * (1 + (len + 4) div 4)\<rparr>) of
                     None \<Rightarrow> None
                   | Some (Inl f) \<Rightarrow> Some (Inl f)
                   | Some (Inr (None, c, k)) \<Rightarrow> Some (Inr (None, c, Suc k))
                   | Some (Inr (Some q, c, k)) \<Rightarrow>
                       (case enum_fdt_frames n c of
                          None \<Rightarrow> None
                        | Some (Inl f) \<Rightarrow> Some (Inl f)
                        | Some (Inr (r, c', k')) \<Rightarrow> Some (Inr (r, c', max (Suc k) k'))))))
      else if tag = FDT_PROP then
        (case be32 (image_buf ctx) (pos ctx + 8) of Inl f \<Rightarrow> Some (Inl f) | Inr nameoff \<Rightarrow>
         (case be32 (image_buf ctx) (pos ctx + 4) of Inl f \<Rightarrow> Some (Inl f) | Inr sz \<Rightarrow>
          if sz \<ge> INT_MAX then Some (Inr (None, ctx, 1)) else
          (case check_search_target ctx (pos ctx) of Inl f \<Rightarrow> Some (Inl f)
           | Inr r \<Rightarrow>
               if r = 0 then Some (Inr (None, ctx\<lparr>res := Some (pos ctx)\<rparr>, 1))
               else enum_fdt_frames n (ctx\<lparr>pos := pos ctx + 12 + 4 * unat ((sz + 3) div 4)\<rparr>))))
      else if tag = FDT_NOP then
        enum_fdt_frames n (ctx\<lparr>pos := pos ctx + 4\<rparr>)
      else if tag = FDT_END_NODE then
        enum_fdt_frames n
          ((if depth ctx > 0 then ctx\<lparr>depth := depth ctx - 1\<rparr> else ctx)\<lparr>pos := pos ctx + 4\<rparr>)
      else if tag = FDT_END then Some (Inr (None, ctx, 1))
      else Some (Inr (None, ctx, 1)))"

section \<open>The pattern, as the specification describes it\<close>

text \<open>
  For comparison with \<open>check_search_target\<close>: a path pattern is a list of segments
  joined by \<open>/\<close>; a segment ending in \<open>*\<close> matches every name that starts with the
  rest of the segment, any other segment matches its own name only. \<open>seg_code\<close> is the
  value the code's loop leaves for one segment (0 when it goes on to the next).
  \<open>c_str_at m np nm\<close> says that the NUL-terminated name \<open>nm\<close> lies at offset \<open>np\<close>
  of the buffer, \<open>names_at\<close> that the ancestor stack points to the given names from
  level \<open>d\<close> on.
\<close>

definition c_str_at :: "byte list \<Rightarrow> nat \<Rightarrow> string \<Rightarrow> bool" where
  "c_str_at m np nm \<longleftrightarrow> take (length nm + 1) (drop np m) = nm @ [NUL] \<and> NUL \<notin> set nm"

fun join_path :: "string list \<Rightarrow> string" where
  "join_path [] = []"
| "join_path [s] = s"
| "join_path (s # ss) = s @ ''/'' @ join_path ss"

definition seg_matches :: "string \<Rightarrow> string \<Rightarrow> bool" where
  "seg_matches seg nm =
     (if seg \<noteq> [] \<and> last seg = CHR ''*'' then prefix (butlast seg) nm else seg = nm)"

definition seg_code :: "string \<Rightarrow> string \<Rightarrow> int" where
  "seg_code s nm =
     (if last s = CHR ''*''
      then (if length nm < length s - 1 then - 6
            else if take (length s - 1) nm \<noteq> butlast s then - 7 else 0)
      else (if length nm \<noteq> length s then - 2 else if nm \<noteq> s then - 3 else 0))"

fun names_at :: "byte list \<Rightarrow> nat option list \<Rightarrow> nat \<Rightarrow> string list \<Rightarrow> bool" where
  "names_at m pth d [] = True"
| "names_at m pth d (n # ns) =
     ((case path_entry pth d of Inl f \<Rightarrow> False | Inr np \<Rightarrow> c_str_at m np n)
      \<and> names_at m pth (Suc d) ns)"

section \<open>The tag stream, as the specification describes it\<close>

text \<open>
  For comparison with the walker: the structure block is a sequence of records, a
  \<open>token\<close> each. \<open>toks_at m strs p ts\<close> says that the records \<open>ts\<close> lie one after
  the other from offset \<open>p\<close> of the buffer, each taking its size rounded up to four
  bytes: a node record is the tag and the NUL-terminated name, a property record the
  tag, a length below \<open>INT_MAX\<close>, and the offset of its name in the strings block at
  \<open>strs\<close>.

  The stream is the pre-order encoding of a tree. An \<open>item\<close> is a property, a NOP
  or a node with its own items; \<open>tokens\<close> is the encoding, a node being its
  \<open>BEGIN_NODE\<close> record, its items in order and an \<open>END_NODE\<close> record. \<open>preorder\<close>
  lists the properties of a list of items depth first, in pre-order: each with the
  names of its ancestors (the root excluded, outermost first), its own name and the
  offset of its record. \<open>items_ok\<close> says that node names are not empty and that
  the nesting stays below 32 levels under the root.

  A target with the segments \<open>segs\<close> and the name \<open>tn\<close> matches a property when
  the property has that name and every segment matches the ancestor name of its level
  (\<open>target_matches\<close>); \<open>first_hit\<close> is the offset of the first property of a
  listing that matches. \<open>first_match\<close> and \<open>well_nested\<close> are the same search and
  the same conditions on the sequence of records, with the stack of open nodes; the
  proofs go through them. \<open>node_count\<close> is the number of nodes of a list of
  items, \<open>calls_made\<close> the number of \<open>BEGIN_NODE\<close> records of a sequence up to
  the first match or the \<open>END\<close> tag.
\<close>

datatype token = Begin_node string | End_node | Property string "32 word" | Nop_tag | End_tag

fun tok_size :: "token \<Rightarrow> nat" where
  "tok_size (Begin_node nm) = 4 * (1 + (length nm + 4) div 4)"
| "tok_size (Property nm len) = 12 + 4 * unat ((len + 3) div 4)"
| "tok_size End_node = 4"
| "tok_size Nop_tag = 4"
| "tok_size End_tag = 4"

fun tok_at :: "byte list \<Rightarrow> nat \<Rightarrow> nat \<Rightarrow> token \<Rightarrow> bool" where
  "tok_at m strs p (Begin_node nm) = (be32 m p = Inr FDT_BEGIN_NODE \<and> c_str_at m (p + 4) nm)"
| "tok_at m strs p End_node = (be32 m p = Inr FDT_END_NODE)"
| "tok_at m strs p (Property nm len) =
     (be32 m p = Inr FDT_PROP \<and> be32 m (p + 4) = Inr len \<and> len < INT_MAX
      \<and> (case be32 m (p + 8) of Inl f \<Rightarrow> False | Inr off \<Rightarrow> c_str_at m (strs + unat off) nm))"
| "tok_at m strs p Nop_tag = (be32 m p = Inr FDT_NOP)"
| "tok_at m strs p End_tag = (be32 m p = Inr FDT_END)"

fun toks_at :: "byte list \<Rightarrow> nat \<Rightarrow> nat \<Rightarrow> token list \<Rightarrow> bool" where
  "toks_at m strs p [] = True"
| "toks_at m strs p (t # ts) = (tok_at m strs p t \<and> toks_at m strs (p + tok_size t) ts)"

definition stream_size :: "token list \<Rightarrow> nat" where
  "stream_size ts = sum_list (map tok_size ts)"

datatype item = Prop_item string "32 word" | Nop_item | Node_item string "item list"

fun tokens :: "item \<Rightarrow> token list" where
  "tokens (Prop_item nm len) = [Property nm len]"
| "tokens Nop_item = [Nop_tag]"
| "tokens (Node_item nm its) = Begin_node nm # concat (map tokens its) @ [End_node]"

fun preorder :: "string list \<Rightarrow> nat \<Rightarrow> item list \<Rightarrow> (string list \<times> string \<times> nat) list" where
  "preorder anc p [] = []"
| "preorder anc p (Prop_item nm len # its) =
     (anc, nm, p) # preorder anc (p + tok_size (Property nm len)) its"
| "preorder anc p (Nop_item # its) = preorder anc (p + 4) its"
| "preorder anc p (Node_item nm kids # its) =
     preorder (anc @ [nm]) (p + tok_size (Begin_node nm)) kids
     @ preorder anc (p + stream_size (tokens (Node_item nm kids))) its"

fun items_ok :: "nat \<Rightarrow> item list \<Rightarrow> bool" where
  "items_ok d [] = True"
| "items_ok d (Prop_item nm len # its) = items_ok d its"
| "items_ok d (Nop_item # its) = items_ok d its"
| "items_ok d (Node_item nm kids # its) =
     (nm \<noteq> [] \<and> d + 1 < 32 \<and> items_ok (d + 1) kids \<and> items_ok d its)"

definition target_matches :: "string list \<Rightarrow> string \<Rightarrow> string list \<Rightarrow> string \<Rightarrow> bool" where
  "target_matches segs tn anc nm \<longleftrightarrow> nm = tn \<and> list_all2 seg_matches segs anc"

fun hit :: "(string list \<Rightarrow> string \<Rightarrow> bool) \<Rightarrow> string list \<times> string \<times> nat \<Rightarrow> bool" where
  "hit M (anc, nm, q) = M anc nm"

definition first_hit ::
  "(string list \<Rightarrow> string \<Rightarrow> bool) \<Rightarrow> (string list \<times> string \<times> nat) list \<Rightarrow> nat option" where
  "first_hit M ps = map_option (\<lambda>x. snd (snd x)) (find (hit M) ps)"

fun well_nested :: "nat \<Rightarrow> token list \<Rightarrow> bool" where
  "well_nested d [] = True"
| "well_nested d (Begin_node nm # ts) = (nm \<noteq> [] \<and> d + 1 < 32 \<and> well_nested (d + 1) ts)"
| "well_nested d (End_node # ts) = well_nested (d - 1) ts"
| "well_nested d (Property nm len # ts) = well_nested d ts"
| "well_nested d (Nop_tag # ts) = well_nested d ts"
| "well_nested d (End_tag # ts) = well_nested d ts"

fun first_match ::
  "(string list \<Rightarrow> string \<Rightarrow> bool) \<Rightarrow> string list \<Rightarrow> nat \<Rightarrow> token list \<Rightarrow> nat option" where
  "first_match M anc p [] = None"
| "first_match M anc p (Begin_node nm # ts) =
     first_match M (anc @ [nm]) (p + tok_size (Begin_node nm)) ts"
| "first_match M anc p (End_node # ts) = first_match M (butlast anc) (p + 4) ts"
| "first_match M anc p (Property nm len # ts) =
     (if M anc nm then Some p else first_match M anc (p + tok_size (Property nm len)) ts)"
| "first_match M anc p (Nop_tag # ts) = first_match M anc (p + 4) ts"
| "first_match M anc p (End_tag # ts) = None"

fun calls_made :: "(string list \<Rightarrow> string \<Rightarrow> bool) \<Rightarrow> string list \<Rightarrow> token list \<Rightarrow> nat" where
  "calls_made M anc [] = 0"
| "calls_made M anc (Begin_node nm # ts) = Suc (calls_made M (anc @ [nm]) ts)"
| "calls_made M anc (End_node # ts) = calls_made M (butlast anc) ts"
| "calls_made M anc (Property nm len # ts) = (if M anc nm then 0 else calls_made M anc ts)"
| "calls_made M anc (Nop_tag # ts) = calls_made M anc ts"
| "calls_made M anc (End_tag # ts) = 0"

fun node_count :: "item list \<Rightarrow> nat" where
  "node_count [] = 0"
| "node_count (Prop_item nm len # its) = node_count its"
| "node_count (Nop_item # its) = node_count its"
| "node_count (Node_item nm kids # its) = Suc (node_count kids + node_count its)"

section \<open>Concrete inputs\<close>

text \<open>
  Test data, built with a big-endian encoder: a header from its ten fields, and a
  196-byte blob with the tree
  \<open>/ { bootargs = "r"; chosen { bootargs = "console=ttyS0"; mask = <0xffffffff>; };
  cpus { bootargs = "x"; }; }\<close>.
\<close>

definition be32_bytes :: "int \<Rightarrow> byte list" where
  "be32_bytes n =
     [char_of (n div 2 ^ 24), char_of (n div 2 ^ 16), char_of (n div 2 ^ 8), char_of n]"

definition hdr_bytes ::
  "int \<Rightarrow> int \<Rightarrow> int \<Rightarrow> int \<Rightarrow> int \<Rightarrow> int \<Rightarrow> int \<Rightarrow> int \<Rightarrow> int \<Rightarrow> int \<Rightarrow> byte list" where
  "hdr_bytes magic totalsize off_dt_struct off_dt_strings off_mem_rsvmap version
       last_comp_version boot_cpuid_phys size_dt_strings size_dt_struct =
     be32_bytes magic @ be32_bytes totalsize @ be32_bytes off_dt_struct
     @ be32_bytes off_dt_strings @ be32_bytes off_mem_rsvmap @ be32_bytes version
     @ be32_bytes last_comp_version @ be32_bytes boot_cpuid_phys
     @ be32_bytes size_dt_strings @ be32_bytes size_dt_struct"

definition short_buf :: "byte list" where
  "short_buf = hdr_bytes 0xd00dfeed 200 56 120 40 17 16 0 16 64 @ replicate 7 NUL"

definition sample_struct :: "byte list" where
  "sample_struct =
     be32_bytes 1 @ be32_bytes 0
     @ be32_bytes 3 @ be32_bytes 2 @ be32_bytes 0 @ ''r'' @ [NUL, NUL, NUL]
     @ be32_bytes 1 @ ''chosen'' @ [NUL, NUL]
     @ be32_bytes 3 @ be32_bytes 14 @ be32_bytes 0 @ ''console=ttyS0'' @ [NUL, NUL, NUL]
     @ be32_bytes 3 @ be32_bytes 4 @ be32_bytes 9 @ be32_bytes 0xffffffff
     @ be32_bytes 2
     @ be32_bytes 1 @ ''cpus'' @ [NUL, NUL, NUL, NUL]
     @ be32_bytes 3 @ be32_bytes 2 @ be32_bytes 0 @ ''x'' @ [NUL, NUL, NUL]
     @ be32_bytes 2
     @ be32_bytes 2 @ be32_bytes 9"

definition sample_strings :: "byte list" where
  "sample_strings = ''bootargs'' @ [NUL] @ ''mask'' @ [NUL]"

definition sample_blob :: "byte list" where
  "sample_blob =
     hdr_bytes 0xd00dfeed 196 56 180 40 17 16 0 14 124
     @ replicate 16 NUL @ sample_struct @ sample_strings @ [NUL, NUL]"

text \<open>Contexts for the walker: 33 nested nodes, and single records at a given depth.\<close>

definition deep_stream :: "byte list" where
  "deep_stream =
     be32_bytes 1 @ be32_bytes 0
     @ concat (replicate 32 (be32_bytes 1 @ ''a'' @ [NUL, NUL, NUL]))"

definition deep_ctx :: fdt_ctx where
  "deep_ctx = zero_ctx\<lparr>image_buf := deep_stream, depth := - 1\<rparr>"

definition node_ctx :: "int \<Rightarrow> fdt_ctx" where
  "node_ctx d = zero_ctx\<lparr>image_buf := be32_bytes 1 @ ''a'' @ [NUL, NUL, NUL], depth := d\<rparr>"


text \<open>
  The walker's context on \<open>sample_blob\<close> at the first property of \<open>/chosen\<close> (offset
  92; the node name is at offset 84), searching \<open>bootargs\<close> under \<open>/c*\<close>.
\<close>

definition match_ctx :: fdt_ctx where
  "match_ctx = zero_ctx\<lparr>image_buf := sample_blob, tree := 56, strings := 180, depth := 1,
     path := (replicate 33 None)[0 := Some 84], pos := 92, target_path := Some ''/c*'',
     target_depth := 1, target_name := Some ''bootargs''\<rparr>"

text \<open>A context at depth 1 under a node of the given name, searching \<open>p\<close> under \<open>/eth*\<close>.\<close>

definition wild_ctx :: "string \<Rightarrow> fdt_ctx" where
  "wild_ctx nm = zero_ctx\<lparr>image_buf := be32_bytes 3 @ be32_bytes 0 @ be32_bytes 0
       @ ''p'' @ [NUL] @ nm @ [NUL],
     strings := 12, depth := 1, path := (replicate 33 None)[0 := Some 14],
     target_path := Some ''/eth*'', target_depth := 1, target_name := Some ''p''\<rparr>"

text \<open>
  The tree of \<open>sample_blob\<close> under its root, and the context in which
  \<open>get_fdt_prop\<close> starts the walk on that blob for a path, its depth and a name.
\<close>

definition sample_items :: "item list" where
  "sample_items =
     [Prop_item ''bootargs'' 2,
      Node_item ''chosen'' [Prop_item ''bootargs'' 14, Prop_item ''mask'' 4],
      Node_item ''cpus'' [Prop_item ''bootargs'' 2]]"

definition lookup_ctx :: "string \<Rightarrow> int \<Rightarrow> string \<Rightarrow> fdt_ctx" where
  "lookup_ctx p d nm = zero_ctx\<lparr>image_buf := sample_blob, tree := 56, strings := 180,
     depth := - 1, pos := 56, target_path := Some p, target_depth := d,
     target_name := Some nm\<rparr>"

text \<open>
  A tree of nesting depth 1, \<open>k\<close> empty nodes \<open>a\<close> next to each other under the
  root; its structure block; and the context in which \<open>get_fdt_prop\<close> starts the
  walk over that block for the property \<open>b\<close> under \<open>/a\<close>, which no node has.
\<close>

definition siblings_items :: "nat \<Rightarrow> item list" where
  "siblings_items k = replicate k (Node_item ''a'' [])"

definition siblings_stream :: "nat \<Rightarrow> byte list" where
  "siblings_stream k =
     be32_bytes 1 @ be32_bytes 0
     @ concat (replicate k (be32_bytes 1 @ ''a'' @ [NUL, NUL, NUL] @ be32_bytes 2))
     @ be32_bytes 2 @ be32_bytes 9"

definition siblings_ctx :: "nat \<Rightarrow> fdt_ctx" where
  "siblings_ctx k = zero_ctx\<lparr>image_buf := siblings_stream k, depth := - 1,
     target_path := Some ''/a'', target_depth := 1, target_name := Some ''b''\<rparr>"

text \<open>
  A blob with a valid header whose structure block stops without an \<open>END\<close> tag:
  the root node, opened and closed, in the last 12 bytes of the buffer.
\<close>

definition noend_blob :: "byte list" where
  "noend_blob =
     hdr_bytes 0xd00dfeed 168 156 44 40 17 16 0 4 12
     @ replicate 116 NUL @ be32_bytes 1 @ be32_bytes 0 @ be32_bytes 2"

section \<open>Basic facts\<close>

lemma bind_f_simps [simp]:
  "bind_f (Inl f) k = Inl f" "bind_f (Inr x) k = k x"
  by (simp_all add: bind_f_def)

lemma bind_f_eq_Inr:
  "bind_f m k = Inr y \<longleftrightarrow> (\<exists>x. m = Inr x \<and> k x = Inr y)"
  by (cases m) simp_all

lemma be32_Inr_bound: "be32 m p = Inr w \<Longrightarrow> p + 4 \<le> length m"
  by (simp add: be32_def split: if_splits)

lemma be32_in_bounds: "p + 4 \<le> length m \<Longrightarrow> be32 m p = Inr (be32_val m p)"
  by (simp add: be32_def)

declare find_fdt_loop.simps [simp del] path_depth_loop.simps [simp del]
  search_loop.simps [simp del]

section \<open>Header validation\<close>

lemma get_fdt_totalsize_strict:
  assumes "offset + 40 \<le> length img"
  shows "get_fdt_totalsize img offset True =
           Inr (if strict_checks img offset then sint (be32_val img (offset + 4)) else - 1)"
proof -
  let ?ts = "be32_val img (offset + 4)"
  have rd: "be32 img (offset + k) = Inr (be32_val img (offset + k))" if "k \<le> 36" for k
    using that assms by (intro be32_in_bounds) simp
  have rd0: "be32 img offset = Inr (be32_val img offset)"
    using rd [of 0] by simp
  show ?thesis
  proof (cases "strict_checks img offset")
    case True
    then have "be32_val img offset = FDT_MAGIC"
      and "\<not> INT_MAX \<le> ?ts" and "\<not> ?ts < hdrsize + 128"
      and "be32_val img (offset + 20) = 17" and "be32_val img (offset + 24) = 16"
      and "\<not> be32_val img (offset + 8) \<le> hdrsize" and "\<not> ?ts \<le> be32_val img (offset + 8)"
      and "\<not> ?ts < be32_val img (offset + 8) + be32_val img (offset + 36)"
      and "\<not> be32_val img (offset + 12) \<le> hdrsize" and "\<not> ?ts \<le> be32_val img (offset + 12)"
      and "\<not> ?ts < be32_val img (offset + 12) + be32_val img (offset + 32)"
      and "be32_val img (offset + 28) = 0"
      by (simp_all add: strict_checks_def Let_def linorder_not_le linorder_not_less)
    with True show ?thesis
      by (simp add: get_fdt_totalsize_def rd rd0)
  next
    case False
    then consider "be32_val img offset \<noteq> FDT_MAGIC"
      | "INT_MAX \<le> ?ts \<or> ?ts < hdrsize + 128"
      | "be32_val img (offset + 20) \<noteq> 17 \<or> be32_val img (offset + 24) \<noteq> 16"
      | "be32_val img (offset + 8) \<le> hdrsize \<or> ?ts \<le> be32_val img (offset + 8)"
      | "?ts < be32_val img (offset + 8) + be32_val img (offset + 36)"
      | "be32_val img (offset + 12) \<le> hdrsize \<or> ?ts \<le> be32_val img (offset + 12)"
      | "?ts < be32_val img (offset + 12) + be32_val img (offset + 32)"
      | "be32_val img (offset + 28) \<noteq> 0"
      unfolding strict_checks_def Let_def by (meson not_le not_less)
    then have "get_fdt_totalsize img offset True = Inr (- 1)"
      by cases (simp_all add: get_fdt_totalsize_def rd rd0)
    with False show ?thesis by simp
  qed
qed

lemma sint_below_INT_MAX:
  fixes w :: "32 word"
  assumes "w < INT_MAX"
  shows "sint w = uint w"
proof -
  from assms have "uint w < 2 ^ 31"
    by (simp add: INT_MAX_def word_less_def)
  moreover have "- (2 ^ 31) \<le> uint w"
    by (rule order_trans [of _ 0]) simp_all
  ultimately have "signed_take_bit 31 (uint w) = uint w"
    by (intro signed_take_bit_int_eq_self) simp_all
  then show ?thesis
    by (simp add: sint_uint)
qed

lemma get_fdt_totalsize_exact:
  assumes "offset + 40 \<le> length img" and "strict_checks img offset"
  shows "get_fdt_totalsize img offset True = Inr (uint (be32_val img (offset + 4)))"
proof -
  from assms(2) have "be32_val img (offset + 4) < INT_MAX"
    by (simp add: strict_checks_def Let_def)
  then have "sint (be32_val img (offset + 4)) = uint (be32_val img (offset + 4))"
    by (rule sint_below_INT_MAX)
  with assms show ?thesis
    by (simp add: get_fdt_totalsize_strict)
qed

section \<open>Facts about the walker\<close>

text \<open>Every return of the walker is \<open>return NULL\<close>.\<close>

lemma enum_ret_NULL:
  "enum_fdt_nodes n ctx = Some (Inr (r, c)) \<Longrightarrow> r = None"
proof (induction n arbitrary: ctx r c)
  case 0
  then show ?case by simp
next
  case (Suc n)
  from Suc.prems show ?case
    by (auto split: sum.splits if_splits option.splits prod.splits dest: Suc.IH)
qed

lemma enum_recursive_call:
  "(case enum_fdt_nodes n c2 of None \<Rightarrow> None
    | Some (Inl f) \<Rightarrow> Some (Inl f)
    | Some (Inr (None, c)) \<Rightarrow> Some (Inr (None, c))
    | Some (Inr (Some q, c)) \<Rightarrow> enum_fdt_nodes n c) = enum_fdt_nodes n c2"
  by (auto split: option.splits sum.splits prod.splits dest: enum_ret_NULL)

lemma enum_fdt_nodes_Suc:
  "enum_fdt_nodes (Suc n) ctx =
     (case walk_step ctx of Inl f \<Rightarrow> Some (Inl f)
      | Inr (Inl c) \<Rightarrow> Some (Inr (None, c))
      | Inr (Inr c) \<Rightarrow> enum_fdt_nodes n c)"
  by (simp add: walk_step_def enum_recursive_call split: sum.splits option.splits)

declare enum_fdt_nodes.simps(2) [simp del]

lemma enter_node_facts:
  "enter_node ctx = Inr (Some ctx1) \<Longrightarrow>
     target_depth ctx1 = target_depth ctx \<and> res ctx1 = res ctx \<and> image_buf ctx1 = image_buf ctx
     \<and> pos ctx1 = pos ctx \<and> target_path ctx1 = target_path ctx \<and> target_name ctx1 = target_name ctx
     \<and> strings ctx1 = strings ctx
     \<and> 0 \<le> depth ctx1 \<and> (depth ctx < MAX_FDT_DEPTH \<longrightarrow> depth ctx1 \<le> MAX_FDT_DEPTH)"
  by (auto simp: enter_node_def bind_f_eq_Inr MAX_FDT_DEPTH_def split: if_splits)

lemma check_search_target_res [simp]:
  "check_search_target (ctx\<lparr>res := x\<rparr>) p = check_search_target ctx p"
  by (simp add: check_search_target_def cong: if_cong option.case_cong)

text \<open>A match needs \<open>depth = target_depth > 0\<close>.\<close>

lemma check_search_target_match_depth:
  "check_search_target ctx prop = Inr 0 \<Longrightarrow> depth ctx = target_depth ctx \<and> 0 < target_depth ctx"
  by (auto simp: check_search_target_def bind_f_eq_Inr split: option.splits if_splits)

lemma walk_step_facts:
  assumes "walk_step ctx = Inr s"
  shows "case s of Inl c \<Rightarrow> step_stop_facts ctx c | Inr c \<Rightarrow> step_next_facts ctx c"
proof (cases "be32 (image_buf ctx) (pos ctx)")
  case (Inl f)
  with assms show ?thesis by (simp add: walk_step_def)
next
  case (Inr tag)
  then have inb: "pos ctx + 4 \<le> length (image_buf ctx)"
    by (rule be32_Inr_bound)
  consider (bnode) "tag = FDT_BEGIN_NODE"
    | (isprop) "tag \<noteq> FDT_BEGIN_NODE" "tag = FDT_PROP"
    | (nop) "tag \<noteq> FDT_BEGIN_NODE" "tag \<noteq> FDT_PROP" "tag = FDT_NOP"
    | (enode) "tag \<noteq> FDT_BEGIN_NODE" "tag \<noteq> FDT_PROP" "tag \<noteq> FDT_NOP" "tag = FDT_END_NODE"
    | (other) "tag \<noteq> FDT_BEGIN_NODE" "tag \<noteq> FDT_PROP" "tag \<noteq> FDT_NOP" "tag \<noteq> FDT_END_NODE"
    by blast
  then show ?thesis
  proof cases
    case bnode
    with Inr assms have
      "(case enter_node ctx of Inl f \<Rightarrow> Inl f
         | Inr None \<Rightarrow> Inr (Inl ctx)
         | Inr (Some ctx1) \<Rightarrow>
             if depth ctx1 = MAX_FDT_DEPTH then Inr (Inl ctx1) else
             (case c_strlen (image_buf ctx1) (pos ctx1 + 4) of Inl f \<Rightarrow> Inl f
              | Inr len \<Rightarrow> Inr (Inr (ctx1\<lparr>pos := pos ctx1 + 4 * (1 + (len + 4) div 4)\<rparr>)))) = Inr s"
      by (simp add: walk_step_def)
    then show ?thesis
      using inb
      by (auto simp: step_stop_facts_def step_next_facts_def
          split: sum.splits option.splits if_splits dest!: enter_node_facts)
  next
    case isprop
    with Inr assms have
      "(case be32 (image_buf ctx) (pos ctx + 8) of Inl f \<Rightarrow> Inl f | Inr nameoff \<Rightarrow>
         (case be32 (image_buf ctx) (pos ctx + 4) of Inl f \<Rightarrow> Inl f | Inr sz \<Rightarrow>
          if sz \<ge> INT_MAX then Inr (Inl ctx) else
          (case check_search_target ctx (pos ctx) of Inl f \<Rightarrow> Inl f
           | Inr r \<Rightarrow>
               if r = 0 then Inr (Inl (ctx\<lparr>res := Some (pos ctx)\<rparr>))
               else Inr (Inr (ctx\<lparr>pos := pos ctx + 12 + 4 * unat ((sz + 3) div 4)\<rparr>))))) = Inr s"
      by (simp add: walk_step_def)
    then show ?thesis
      using inb Inr isprop
      by (auto simp: step_stop_facts_def step_next_facts_def
          split: sum.splits if_splits)
  next
    case nop
    with Inr assms have "s = Inr (ctx\<lparr>pos := pos ctx + 4\<rparr>)"
      by (simp add: walk_step_def)
    then show ?thesis
      using inb by (simp add: step_next_facts_def)
  next
    case enode
    with Inr assms have
      "s = Inr ((if depth ctx > 0 then ctx\<lparr>depth := depth ctx - 1\<rparr> else ctx)\<lparr>pos := pos ctx + 4\<rparr>)"
      by (simp add: walk_step_def)
    then show ?thesis
      using inb by (simp add: step_next_facts_def)
  next
    case other
    with Inr assms have "s = Inl ctx"
      by (simp add: walk_step_def)
    then show ?thesis
      by (simp add: step_stop_facts_def)
  qed
qed

lemma walk_step_next:
  "walk_step ctx = Inr (Inr c) \<Longrightarrow> step_next_facts ctx c"
  using walk_step_facts [of ctx "Inr c"] by simp

lemma walk_step_stop:
  "walk_step ctx = Inr (Inl c) \<Longrightarrow> step_stop_facts ctx c"
  using walk_step_facts [of ctx "Inl c"] by simp

text \<open>
  Every pass of the loop that goes on moves \<open>pos\<close> forward, and a tag is only read
  inside the buffer: fuel above the distance to the end of the buffer is enough.
\<close>

lemma enum_terminates:
  "length (image_buf ctx) - pos ctx < n \<Longrightarrow> enum_fdt_nodes n ctx \<noteq> None"
proof (induction n arbitrary: ctx)
  case 0
  then show ?case by simp
next
  case (Suc n)
  show ?case
  proof (cases "walk_step ctx")
    case (Inl f)
    then show ?thesis by (simp add: enum_fdt_nodes_Suc)
  next
    case (Inr s)
    show ?thesis
    proof (cases s)
      case (Inl c)
      with Inr show ?thesis by (simp add: enum_fdt_nodes_Suc)
    next
      case next_c: (Inr c)
      with Inr have st: "walk_step ctx = Inr (Inr c)" by simp
      from walk_step_next [OF st] Suc.prems
      have "length (image_buf c) - pos c < n"
        by (auto simp: step_next_facts_def)
      then have "enum_fdt_nodes n c \<noteq> None" by (rule Suc.IH)
      with st show ?thesis by (simp add: enum_fdt_nodes_Suc)
    qed
  qed
qed

text \<open>
  An invariant rule for walks that return: a relation between the context a pass
  starts in and the final context holds when it holds for the pass that returns and
  is carried backwards over every pass that goes on.
\<close>

lemma enum_invariant:
  assumes "enum_fdt_nodes n ctx = Some (Inr (r, c))"
    and stop: "\<And>x y. walk_step x = Inr (Inl y) \<Longrightarrow> P x y"
    and nxt: "\<And>x x' y. walk_step x = Inr (Inr x') \<Longrightarrow> P x' y \<Longrightarrow> P x y"
  shows "P ctx c"
  using assms(1)
proof (induction n arbitrary: ctx)
  case 0
  then show ?case by simp
next
  case (Suc n)
  show ?case
  proof (cases "walk_step ctx")
    case (Inl f)
    with Suc.prems show ?thesis by (simp add: enum_fdt_nodes_Suc)
  next
    case (Inr s)
    show ?thesis
    proof (cases s)
      case (Inl c0)
      with Inr have st: "walk_step ctx = Inr (Inl c0)" by simp
      with Suc.prems have "c = c0" by (simp add: enum_fdt_nodes_Suc)
      with stop [OF st] show ?thesis by simp
    next
      case next_c: (Inr c1)
      with Inr have st: "walk_step ctx = Inr (Inr c1)" by simp
      with Suc.prems have "enum_fdt_nodes n c1 = Some (Inr (r, c))"
        by (simp add: enum_fdt_nodes_Suc)
      then have "P c1 c" by (rule Suc.IH)
      with st show ?thesis by (rule nxt)
    qed
  qed
qed


lemma enum_target_depth:
  assumes "enum_fdt_nodes n ctx = Some (Inr (r, c))"
  shows "target_depth c = target_depth ctx"
  using assms
proof (rule enum_invariant)
  fix x y :: fdt_ctx
  assume "walk_step x = Inr (Inl y)"
  from walk_step_stop [OF this] show "target_depth y = target_depth x"
    by (simp add: step_stop_facts_def)
next
  fix x x' y :: fdt_ctx
  assume "walk_step x = Inr (Inr x')" and "target_depth y = target_depth x'"
  with walk_step_next [of x x'] show "target_depth y = target_depth x"
    by (simp add: step_next_facts_def)
qed

text \<open>
  The result slot is written once, by the pass that ends the walk: the final \<open>pos\<close> is
  the matched record, which is a property the matcher accepted.
\<close>

lemma enum_first_match:
  assumes "enum_fdt_nodes n ctx = Some (Inr (r, c))"
  shows "res ctx = None \<longrightarrow> res c = Some q \<longrightarrow>
     pos c = q \<and> pos ctx \<le> q \<and> be32 (image_buf c) q = Inr FDT_PROP
     \<and> check_search_target c q = Inr 0"
  using assms
proof (rule enum_invariant)
  fix x y :: fdt_ctx
  assume "walk_step x = Inr (Inl y)"
  from walk_step_stop [OF this]
  show "res x = None \<longrightarrow> res y = Some q \<longrightarrow>
     pos y = q \<and> pos x \<le> q \<and> be32 (image_buf y) q = Inr FDT_PROP
     \<and> check_search_target y q = Inr 0"
    by (auto simp: step_stop_facts_def)
next
  fix x x' y :: fdt_ctx
  assume "walk_step x = Inr (Inr x')"
    and "res x' = None \<longrightarrow> res y = Some q \<longrightarrow>
     pos y = q \<and> pos x' \<le> q \<and> be32 (image_buf y) q = Inr FDT_PROP
     \<and> check_search_target y q = Inr 0"
  with walk_step_next [of x x']
  show "res x = None \<longrightarrow> res y = Some q \<longrightarrow>
     pos y = q \<and> pos x \<le> q \<and> be32 (image_buf y) q = Inr FDT_PROP
     \<and> check_search_target y q = Inr 0"
    by (auto simp: step_next_facts_def)
qed

text \<open>With a target depth of 0 (or below) nothing is ever recorded.\<close>

lemma enum_no_match_depth0:
  assumes "enum_fdt_nodes n ctx = Some (Inr (r, c))" and "target_depth ctx \<le> 0"
    and "res ctx = None"
  shows "res c = None"
proof (rule ccontr)
  assume "res c \<noteq> None"
  then obtain q where q: "res c = Some q" by blast
  from enum_first_match [OF assms(1), of q] assms(3) q
  have "check_search_target c q = Inr 0" by simp
  then have "0 < target_depth c"
    by (simp add: check_search_target_match_depth)
  with enum_target_depth [OF assms(1)] assms(2) show False by simp
qed

text \<open>
  The depth guard: a \<open>BEGIN_NODE\<close> that takes the depth counter to 32 returns at once,
  with the name pushed and the result slot as it was, and does not descend. On a
  stream of 33 nodes nested in each other the walk ends that way, at depth 32.
\<close>

lemma enum_depth_guard:
  assumes "be32 (image_buf ctx) (pos ctx) = Inr FDT_BEGIN_NODE"
    and "depth ctx = MAX_FDT_DEPTH - 1"
    and "rd8 (image_buf ctx) (pos ctx + 4) = Inr c0" and "c0 \<noteq> NUL"
    and "length (path ctx) = 33"
  shows "enum_fdt_nodes (Suc n) ctx
     = Some (Inr (None, ctx\<lparr>path := (path ctx)[31 := Some (pos ctx + 4)],
                                depth := MAX_FDT_DEPTH\<rparr>))"
proof -
  from assms have "enter_node ctx
      = Inr (Some (ctx\<lparr>path := (path ctx)[31 := Some (pos ctx + 4)], depth := MAX_FDT_DEPTH\<rparr>))"
    by (simp add: enter_node_def MAX_FDT_DEPTH_def)
  with assms(1) show ?thesis
    by (simp add: enum_fdt_nodes_Suc walk_step_def)
qed

lemma enum_depth_guard_deep_stream:
  "map_option (map_sum id (map_prod id depth)) (enum_fdt_nodes 40 deep_ctx)
     = Some (Inr (None, 32))"
  by code_simp

section \<open>Facts about the call stack\<close>

text \<open>Without the count of invocations, \<open>enum_fdt_frames\<close> is \<open>enum_fdt_nodes\<close>.\<close>

lemma enum_fdt_frames_walk:
  "map_option (map_sum id (map_prod id fst)) (enum_fdt_frames n ctx) = enum_fdt_nodes n ctx"
proof (induction n arbitrary: ctx)
  case 0
  show ?case by simp
next
  case (Suc n)
  show ?case
    by (simp add: enum_fdt_nodes.simps(2) Suc.IH [symmetric]
        split: sum.splits option.splits prod.splits)
qed

lemma enum_fdt_frames_ret_NULL:
  assumes "enum_fdt_frames n ctx = Some (Inr (r, c, k))"
  shows "r = None"
proof -
  from assms enum_fdt_frames_walk [of n ctx] have "enum_fdt_nodes n ctx = Some (Inr (r, c))"
    by (metis fst_conv id_apply map_option_eq_Some map_prod_simp map_sum.simps(2) option.simps(9))
  then show ?thesis by (rule enum_ret_NULL)
qed

text \<open>
  Pass by pass: the pass that returns leaves one invocation; a \<open>BEGIN_NODE\<close> pass that
  goes on does so by a call, which adds an invocation to those of the rest of the walk;
  every other pass that goes on, \<open>END_NODE\<close> included, stays in its invocation. No
  pass takes an invocation away before the walk ends.
\<close>

lemma enum_fdt_frames_Suc:
  "enum_fdt_frames (Suc n) ctx =
     (case walk_step ctx of Inl f \<Rightarrow> Some (Inl f)
      | Inr (Inl c) \<Rightarrow> Some (Inr (None, c, 1))
      | Inr (Inr c) \<Rightarrow>
          if be32 (image_buf ctx) (pos ctx) = Inr FDT_BEGIN_NODE
          then map_option (map_sum id (map_prod id (map_prod id Suc))) (enum_fdt_frames n c)
          else enum_fdt_frames n c)"
  by (auto simp: walk_step_def split: sum.splits option.splits prod.splits
      dest: enum_fdt_frames_ret_NULL)

declare enum_fdt_frames.simps(2) [simp del]

section \<open>Facts about the lookup\<close>

lemma init_fdt_ctx_ok:
  "init_fdt_ctx img = Inr (rc, ctx0) \<Longrightarrow> rc = 0 \<Longrightarrow>
     image_buf ctx0 = img \<and> target_depth ctx0 = 0 \<and> target_name ctx0 = None
     \<and> target_path ctx0 = None"
  by (auto simp: init_fdt_ctx_def bind_f_eq_Inr zero_ctx_def split: if_splits)

text \<open>A lookup that returns a property got it from a walk that recorded it.\<close>

lemma get_fdt_prop_Some:
  assumes "get_fdt_prop fuel img (Some p) name = Some (Inr (Some q))"
  shows "\<exists>ctx r c. enum_fdt_nodes fuel ctx = Some (Inr (r, c)) \<and> res ctx = None
           \<and> target_depth ctx = get_path_depth p \<and> res c = Some q"
proof (cases "init_fdt_ctx img")
  case (Inl f)
  with assms show ?thesis by (simp add: get_fdt_prop_def)
next
  case (Inr a)
  obtain rc ctx0 where a: "a = (rc, ctx0)" by (cases a)
  let ?ctx1 = "if name = None then ctx0\<lparr>show_error := True, show_tree := True\<rparr> else ctx0"
  let ?ctx2 = "?ctx1\<lparr>target_depth := get_path_depth p, target_path := Some p, target_name := name\<rparr>"
  let ?ctx = "?ctx2\<lparr>pos := tree ?ctx2, res := None, depth := - 1\<rparr>"
  from assms Inr a have "\<exists>r c. enum_fdt_nodes fuel ?ctx = Some (Inr (r, c)) \<and> res c = Some q"
    by (simp add: get_fdt_prop_def Let_def split: if_splits sum.splits option.splits prod.splits)
  then obtain r c where "enum_fdt_nodes fuel ?ctx = Some (Inr (r, c))" "res c = Some q"
    by blast
  moreover have "res ?ctx = None" "target_depth ?ctx = get_path_depth p"
    by simp_all
  ultimately show ?thesis by blast
qed

lemma lookup_result_Some:
  "\<exists>y. e = Some y \<Longrightarrow>
     \<exists>y. (case e of None \<Rightarrow> None | Some (Inl f) \<Rightarrow> Some (Inl f)
      | Some (Inr (r, c)) \<Rightarrow> if P c then Some (A c) else Some B) = Some y"
  by (auto split: option.splits sum.splits prod.splits)

lemma get_fdt_prop_terminates:
  assumes "length img < fuel"
  shows "get_fdt_prop fuel img pth name \<noteq> None"
proof (cases "init_fdt_ctx img")
  case (Inl f)
  then show ?thesis by (simp add: get_fdt_prop_def)
next
  case (Inr a)
  obtain rc ctx0 where a: "a = (rc, ctx0)" by (cases a)
  show ?thesis
  proof (cases "rc = 0")
    case False
    with Inr a show ?thesis by (simp add: get_fdt_prop_def)
  next
    case True
    with Inr a have img: "image_buf ctx0 = img"
      by (simp add: init_fdt_ctx_ok)
    have ex: "\<exists>y. enum_fdt_nodes fuel c = Some y" if "image_buf c = img" for c
    proof -
      have "enum_fdt_nodes fuel c \<noteq> None"
        using that assms by (intro enum_terminates) simp
      then show ?thesis by blast
    qed
    show ?thesis
      unfolding get_fdt_prop_def Let_def Inr a
      by (auto simp: img split: sum.splits intro!: lookup_result_Some ex)
  qed
qed

lemma get_fdt_prop_no_segments:
  assumes "get_path_depth p \<le> 0" and "length img < fuel"
  shows "get_fdt_prop fuel img (Some p) name = Some (Inr None)
         \<or> (\<exists>f. get_fdt_prop fuel img (Some p) name = Some (Inl f))"
proof -
  from assms(2) obtain y where y: "get_fdt_prop fuel img (Some p) name = Some y"
    using get_fdt_prop_terminates [of img fuel "Some p" name] by blast
  show ?thesis
  proof (cases y)
    case (Inl f)
    with y show ?thesis by simp
  next
    case (Inr o1)
    show ?thesis
    proof (cases o1)
      case None
      with y Inr show ?thesis by simp
    next
      case (Some q)
      with y Inr have "get_fdt_prop fuel img (Some p) name = Some (Inr (Some q))" by simp
      from get_fdt_prop_Some [OF this] obtain ctx r c
        where "enum_fdt_nodes fuel ctx = Some (Inr (r, c))" "res ctx = None"
          "target_depth ctx = get_path_depth p" "res c = Some q"
        by blast
      with enum_no_match_depth0 [of fuel ctx r c] assms(1) show ?thesis by simp
    qed
  qed
qed

section \<open>Facts about C strings and the matcher\<close>

lemma c_str_at_drop:
  assumes "c_str_at m np nm"
  shows "drop np m = nm @ NUL # drop (length nm + 1) (drop np m)"
proof -
  have "drop np m = take (length nm + 1) (drop np m) @ drop (length nm + 1) (drop np m)"
    by (rule append_take_drop_id [symmetric])
  with assms show ?thesis by (simp add: c_str_at_def)
qed

lemma c_str_at_bound:
  assumes "c_str_at m np nm"
  shows "np + length nm < length m"
proof -
  from assms have "length (take (length nm + 1) (drop np m)) = length nm + 1"
    by (simp add: c_str_at_def)
  then show ?thesis by simp
qed

lemma c_strlen_c_str_at:
  assumes "c_str_at m np nm"
  shows "c_strlen m np = Inr (length nm)"
proof -
  let ?tl = "drop (length nm + 1) (drop np m)"
  have nn: "\<And>x. x \<in> set nm \<Longrightarrow> x \<noteq> NUL"
    using assms by (auto simp: c_str_at_def)
  have "takeWhile (\<lambda>c. c \<noteq> NUL) (drop np m) = takeWhile (\<lambda>c. c \<noteq> NUL) (nm @ NUL # ?tl)"
    using c_str_at_drop [OF assms] by simp
  also have "\<dots> = nm"
    using nn by simp
  finally show ?thesis
    using c_str_at_bound [OF assms] by (simp add: c_strlen_def)
qed

text \<open>A name in the buffer, byte by byte, and \<open>strcmp\<close> against it.\<close>

lemma c_str_at_Nil: "c_str_at m p [] \<Longrightarrow> rd8 m p = Inr NUL"
proof -
  assume a: "c_str_at m p []"
  from c_str_at_bound [OF a] have p: "p < length m" by simp
  from c_str_at_drop [OF a] have "hd (drop p m) = NUL" by (metis append_Nil list.sel(1))
  with p show ?thesis by (simp add: rd8_def hd_drop_conv_nth)
qed

lemma c_str_at_Cons:
  assumes "c_str_at m p (x # xs)"
  shows "rd8 m p = Inr x \<and> x \<noteq> NUL \<and> c_str_at m (p + 1) xs"
proof -
  from c_str_at_bound [OF assms] have p: "p < length m" by simp
  from assms have tk: "take (length xs + 2) (drop p m) = x # xs @ [NUL]"
    and nn: "x \<noteq> NUL" "NUL \<notin> set xs"
    by (auto simp: c_str_at_def)
  have dm: "drop p m = m ! p # drop (Suc p) m"
    using p by (simp add: Cons_nth_drop_Suc)
  from tk dm have "m ! p = x" "take (length xs + 1) (drop (Suc p) m) = xs @ [NUL]"
    by simp_all
  with p nn show ?thesis
    by (simp add: rd8_def c_str_at_def)
qed

lemma c_strcmp_c_str_at:
  "c_str_at m p nm \<Longrightarrow> NUL \<notin> set tn \<Longrightarrow> c_strcmp m p tn = Inr (nm = tn)"
proof (induction tn arbitrary: p nm)
  case Nil
  show ?case
  proof (cases nm)
    case Nil
    with Nil.prems show ?thesis by (simp add: c_str_at_Nil)
  next
    case (Cons x xs)
    with Nil.prems c_str_at_Cons [of m p x xs] show ?thesis by simp
  qed
next
  case (Cons c2 s)
  then have c2: "c2 \<noteq> NUL" and s: "NUL \<notin> set s" by auto
  show ?case
  proof (cases nm)
    case Nil
    with Cons.prems c2 show ?thesis by (auto simp: c_str_at_Nil)
  next
    case nm: (Cons x xs)
    with Cons.prems c_str_at_Cons [of m p x xs]
    have x: "rd8 m p = Inr x" "x \<noteq> NUL" "c_str_at m (p + 1) xs" by simp_all
    from Cons.IH [OF x(3) s] x nm show ?thesis by auto
  qed
qed

lemma c_strncmp_take:
  "i + n \<le> length s \<Longrightarrow> p + n \<le> length m \<Longrightarrow> NUL \<notin> set (take n (drop p m)) \<Longrightarrow>
     c_strncmp s i m p n = Inr (take n (drop i s) = take n (drop p m))"
proof (induction n arbitrary: i p)
  case 0
  then show ?case by simp
next
  case (Suc n)
  from Suc.prems have i: "i < length s" and p: "p < length m" by simp_all
  have ds: "drop i s = s ! i # drop (Suc i) s"
    using i by (simp add: Cons_nth_drop_Suc)
  have dm: "drop p m = m ! p # drop (Suc p) m"
    using p by (simp add: Cons_nth_drop_Suc)
  from Suc.prems(3) dm have nz: "m ! p \<noteq> NUL" and rest: "NUL \<notin> set (take n (drop (Suc p) m))"
    by auto
  have "c_strncmp s (Suc i) m (Suc p) n
      = Inr (take n (drop (Suc i) s) = take n (drop (Suc p) m))"
    using Suc.prems(1,2) rest by (intro Suc.IH) simp_all
  then show ?case
    using i p nz ds dm by (simp add: rd8_def c_at_def)
qed

lemma prefix_take_iff:
  "prefix xs ys \<longleftrightarrow> length xs \<le> length ys \<and> take (length xs) ys = xs"
  by (metis append_eq_conv_conj prefix_def prefix_length_le take_is_prefix)

lemma search_loop_done:
  "tplen < i \<Longrightarrow> search_loop m pth tp tplen i dn d = Inr 0"
  by (subst search_loop.simps) simp

text \<open>Inside a segment the loop only advances \<open>i\<close>.\<close>

lemma search_loop_skip:
  assumes "\<forall>k. i \<le> k \<and> k < e \<longrightarrow> c_at tp k \<noteq> CHR ''/''" and "i \<le> e" and "e \<le> tplen"
  shows "search_loop m pth tp tplen i dn d = search_loop m pth tp tplen e dn d"
  using assms
proof (induction "e - i" arbitrary: i)
  case 0
  then show ?case by simp
next
  case (Suc x)
  then have lt: "i < e" by simp
  with Suc.prems have "c_at tp i \<noteq> CHR ''/''" and "i < tplen" by simp_all
  then have "search_loop m pth tp tplen i dn d = search_loop m pth tp tplen (i + 1) dn d"
    by (subst search_loop.simps) simp
  also have "\<dots> = search_loop m pth tp tplen e dn d"
    using Suc.hyps(2) Suc.prems lt by (intro Suc.hyps(1)) auto
  finally show ?case .
qed

lemma seg_code_0:
  "s \<noteq> [] \<Longrightarrow> seg_code s nm = 0 \<longleftrightarrow> seg_matches s nm"
  by (cases s rule: rev_cases) (auto simp: seg_code_def seg_matches_def prefix_take_iff)

lemma search_loop_segment_end:
  assumes seg: "take (length s) (drop dn tp) = s" and ne: "s \<noteq> []"
    and e: "e = dn + length s" "e \<le> tplen" "c_at tp e = CHR ''/'' \<or> e = tplen"
    and pe: "path_entry pth d = Inr np" and nm: "c_str_at m np nm"
  shows "search_loop m pth tp tplen e dn d =
           (if seg_code s nm = 0 then search_loop m pth tp tplen (e + 1) (e + 1) (d + 1)
            else Inr (seg_code s nm))"
proof -
  let ?n = "length s"
  from seg have "length (take ?n (drop dn tp)) = ?n" by simp
  with ne have len: "dn + ?n \<le> length tp" by (cases s) (auto simp: min_def split: if_splits)
  have lastc: "c_at tp (dn + ?n - 1) = last s"
  proof -
    from ne have pos: "0 < ?n" by simp
    with len have "dn + ?n - 1 < length tp" by arith
    moreover have "tp ! (dn + ?n - 1) = drop dn tp ! (?n - 1)"
    proof -
      have "dn + ?n - 1 = dn + (?n - 1)"
        using pos by arith
      then show ?thesis
        using len by simp
    qed
    moreover have "drop dn tp ! (?n - 1) = take ?n (drop dn tp) ! (?n - 1)"
      using pos by simp
    moreover have "s ! (?n - 1) = last s"
      using ne by (simp add: last_conv_nth)
    ultimately show ?thesis
      using seg by (simp add: c_at_def)
  qed
  have sl: "c_strlen m np = Inr (length nm)"
    using nm by (rule c_strlen_c_str_at)
  have cmp: "c_strncmp tp dn m np k = Inr (take k s = take k nm)"
    if k: "k \<le> ?n" "k \<le> length nm" for k
  proof -
    have dm: "take k (drop np m) = take k nm"
      using c_str_at_drop [OF nm] k by simp
    have "NUL \<notin> set (take k nm)"
      using nm by (auto simp: c_str_at_def dest: in_set_takeD)
    with dm have "NUL \<notin> set (take k (drop np m))" by simp
    moreover have "np + k \<le> length m"
      using c_str_at_bound [OF nm] k by simp
    moreover have "dn + k \<le> length tp"
      using len k by simp
    ultimately have "c_strncmp tp dn m np k = Inr (take k (drop dn tp) = take k (drop np m))"
      by (intro c_strncmp_take) simp_all
    moreover have "take k (drop dn tp) = take k s"
      using seg k by (metis min.absorb1 take_take)
    ultimately show ?thesis
      using dm by simp
  qed
  have wild: "c_strncmp tp dn m np (?n - 1) = Inr (take (?n - 1) nm = butlast s)"
    if "?n - 1 \<le> length nm"
    using cmp [of "?n - 1"] that by (auto simp: butlast_conv_take)
  have exact: "c_strncmp tp dn m np ?n = Inr (nm = s)" if "length nm = ?n"
    using cmp [of ?n] that by auto
  have dnlen: "e - dn = ?n"
    using e(1) by simp
  have lastc': "c_at tp (dn + ?n - 1) = CHR ''*'' \<longleftrightarrow> last s = CHR ''*''"
    using lastc by simp
  from ne have n0: "?n \<noteq> 0" by simp
  from e(3) have cond: "(c_at tp e = CHR ''/'' \<or> e = tplen) = True"
    by simp
  have unfold: "search_loop m pth tp tplen e dn d =
      (if last s = CHR ''*'' then
         (if length nm < ?n - 1 then Inr (- 6) else
          bind_f (c_strncmp tp dn m np (?n - 1)) (\<lambda>eq.
            if \<not> eq then Inr (- 7)
            else search_loop m pth tp tplen (e + 1) (e + 1) (d + 1)))
       else
         (if length nm \<noteq> ?n then Inr (- 2) else
          bind_f (c_strncmp tp dn m np ?n) (\<lambda>eq.
            if \<not> eq then Inr (- 3)
            else search_loop m pth tp tplen (e + 1) (e + 1) (d + 1))))"
    by (subst search_loop.simps)
      (simp only: e(2) cond if_True Let_def dnlen n0 if_False lastc' pe sl bind_f_simps)
  show ?thesis
  proof (cases "last s = CHR ''*''")
    case star: True
    show ?thesis
    proof (cases "length nm < ?n - 1")
      case True
      with star show ?thesis
        by (simp add: unfold seg_code_def)
    next
      case False
      then have "?n - 1 \<le> length nm" by simp
      from wild [OF this] star False show ?thesis
        by (simp add: unfold seg_code_def)
    qed
  next
    case nostar: False
    show ?thesis
    proof (cases "length nm = ?n")
      case True
      from exact [OF this] nostar True show ?thesis
        by (simp add: unfold seg_code_def)
    next
      case False
      with nostar show ?thesis
        by (simp add: unfold seg_code_def)
    qed
  qed
qed

lemma search_loop_segment:
  assumes seg: "take (length s) (drop dn tp) = s" and ne: "s \<noteq> []"
    and ns: "CHR ''/'' \<notin> set s"
    and e: "e = dn + length s" "e \<le> tplen" "c_at tp e = CHR ''/'' \<or> e = tplen"
    and pe: "path_entry pth d = Inr np" and nm: "c_str_at m np nm"
  shows "search_loop m pth tp tplen dn dn d =
           (if seg_code s nm = 0 then search_loop m pth tp tplen (e + 1) (e + 1) (d + 1)
            else Inr (seg_code s nm))"
proof -
  from seg have "length (take (length s) (drop dn tp)) = length s" by simp
  with ne have len: "dn + length s \<le> length tp" by (cases s) (auto simp: min_def split: if_splits)
  have "\<forall>k. dn \<le> k \<and> k < e \<longrightarrow> c_at tp k \<noteq> CHR ''/''"
  proof (intro allI impI)
    fix k assume k: "dn \<le> k \<and> k < e"
    then have kk: "k - dn < length s" using e(1) by auto
    have "tp ! k = drop dn tp ! (k - dn)"
      using k len by simp
    also have "\<dots> = take (length s) (drop dn tp) ! (k - dn)"
      using kk by simp
    also have "\<dots> = s ! (k - dn)"
      using seg by simp
    finally have "tp ! k \<in> set s"
      using kk by simp
    moreover have "k < length tp"
      using k e(1) len by simp
    ultimately show "c_at tp k \<noteq> CHR ''/''"
      using ns by (auto simp: c_at_def)
  qed
  then have "search_loop m pth tp tplen dn dn d = search_loop m pth tp tplen e dn d"
    using e(1,2) by (intro search_loop_skip) simp_all
  also have "\<dots> = (if seg_code s nm = 0 then search_loop m pth tp tplen (e + 1) (e + 1) (d + 1)
            else Inr (seg_code s nm))"
    using seg ne e pe nm by (rule search_loop_segment_end)
  finally show ?thesis .
qed

lemma join_path_Cons:
  "ss \<noteq> [] \<Longrightarrow> join_path (s # ss) = s @ ''/'' @ join_path ss"
  by (cases ss) simp_all

lemma take_append_eq:
  "take (length (a @ b)) xs = a @ b \<Longrightarrow> take (length a) xs = a"
  by (metis append_eq_conv_conj take_take min.absorb1 le_add1 length_append)

text \<open>
  The loop over a whole pattern, entered at the start of a segment: it ends with a
  code, never with a fault, and the code is 0 exactly when every segment matches.
\<close>

lemma search_loop_segs_code:
  assumes "segs \<noteq> []" and "\<forall>s\<in>set segs. s \<noteq> [] \<and> CHR ''/'' \<notin> set s"
    and "take (length (join_path segs)) (drop i tp) = join_path segs"
    and "tplen = i + length (join_path segs)"
    and "names_at m pth d names" and "length names = length segs"
  shows "\<exists>r. search_loop m pth tp tplen i i d = Inr r
              \<and> (r = 0 \<longleftrightarrow> list_all2 seg_matches segs names)"
  using assms
proof (induction segs arbitrary: i d names rule: list_nonempty_induct)
  case (single s)
  from single.prems(5) obtain nm where names: "names = [nm]"
    by (cases names) simp_all
  with single.prems(4) obtain np where pe: "path_entry pth d = Inr np"
    and nm: "c_str_at m np nm"
    by (auto split: sum.splits)
  from single.prems(1) have ne: "s \<noteq> []" and ns: "CHR ''/'' \<notin> set s"
    by simp_all
  have "search_loop m pth tp tplen i i d =
           (if seg_code s nm = 0 then search_loop m pth tp tplen (tplen + 1) (tplen + 1) (d + 1)
            else Inr (seg_code s nm))"
    using single.prems(2,3) ne ns pe nm
    by (intro search_loop_segment [where s = s and np = np]) simp_all
  then show ?case
    using names ne by (simp add: search_loop_done seg_code_0)
next
  case (cons s ss)
  from cons.prems(5) obtain nm names' where names: "names = nm # names'"
    and len': "length names' = length ss"
    by (cases names) simp_all
  with cons.prems(4) obtain np where pe: "path_entry pth d = Inr np"
    and nm: "c_str_at m np nm" and rest: "names_at m pth (Suc d) names'"
    by (auto split: sum.splits)
  from cons.prems(1) have ne: "s \<noteq> []" and ns: "CHR ''/'' \<notin> set s"
    and ss: "\<forall>s\<in>set ss. s \<noteq> [] \<and> CHR ''/'' \<notin> set s"
    by simp_all
  let ?J = "join_path ss"
  let ?e = "i + length s"
  have jp: "join_path (s # ss) = s @ ''/'' @ ?J"
    using cons.hyps(1) by (rule join_path_Cons)
  with cons.prems(2) have tk: "take (length (s @ ''/'' @ ?J)) (drop i tp) = s @ ''/'' @ ?J"
    by simp
  then have seg: "take (length s) (drop i tp) = s"
    by (rule take_append_eq)
  from tk have "length (take (length (s @ ''/'' @ ?J)) (drop i tp)) = length (s @ ''/'' @ ?J)"
    by simp
  then have lenb: "i + length s + 1 + length ?J \<le> length tp"
    by (auto simp: min_def split: if_splits)
  have "drop i tp ! length s = (s @ ''/'' @ ?J) ! length s"
    using tk by (metis length_append less_add_same_cancel1 nth_take length_greater_0_conv
        append_is_Nil_conv not_Cons_self2)
  then have slash: "c_at tp ?e = CHR ''/''"
    using lenb by (simp add: c_at_def nth_append)
  have tk': "take (length ?J) (drop (?e + 1) tp) = ?J"
  proof -
    have "drop (length s + 1) (take (length (s @ ''/'' @ ?J)) (drop i tp)) = ?J"
      using tk by simp
    then show ?thesis
      by (simp add: drop_take add.commute add.left_commute)
  qed
  have tplen: "tplen = (?e + 1) + length ?J"
    using cons.prems(3) jp by simp
  have IH: "\<exists>r. search_loop m pth tp tplen (?e + 1) (?e + 1) (d + 1) = Inr r
      \<and> (r = 0 \<longleftrightarrow> list_all2 seg_matches ss names')"
    using ss tk' tplen rest len' by (intro cons.IH) simp_all
  have "search_loop m pth tp tplen i i d =
           (if seg_code s nm = 0 then search_loop m pth tp tplen (?e + 1) (?e + 1) (d + 1)
            else Inr (seg_code s nm))"
    using seg ne ns slash pe nm tplen
    by (intro search_loop_segment [where s = s and np = np]) simp_all
  then show ?case
    using names ne IH by (auto simp: seg_code_0)
qed

lemma search_loop_segs:
  assumes "segs \<noteq> []" and "\<forall>s\<in>set segs. s \<noteq> [] \<and> CHR ''/'' \<notin> set s"
    and "take (length (join_path segs)) (drop i tp) = join_path segs"
    and "tplen = i + length (join_path segs)"
    and "names_at m pth d names" and "length names = length segs"
  shows "search_loop m pth tp tplen i i d = Inr 0 \<longleftrightarrow> list_all2 seg_matches segs names"
  using search_loop_segs_code [OF assms] by auto

lemma join_path_facts:
  assumes "segs \<noteq> []" and "\<forall>s\<in>set segs. s \<noteq> [] \<and> CHR ''/'' \<notin> set s \<and> NUL \<notin> set s"
  shows "join_path segs \<noteq> [] \<and> hd (join_path segs) \<noteq> CHR ''/''
     \<and> last (join_path segs) \<noteq> CHR ''/'' \<and> NUL \<notin> set (join_path segs)"
  using assms
proof (induction segs rule: list_nonempty_induct)
  case (single s)
  then have s: "s \<noteq> []" "CHR ''/'' \<notin> set s" "NUL \<notin> set s"
    by simp_all
  from s(1) have "hd s \<in> set s" "last s \<in> set s"
    by simp_all
  with s show ?case
    by (metis join_path.simps(2))
next
  case (cons s ss)
  then have J: "join_path ss \<noteq> []" "last (join_path ss) \<noteq> CHR ''/''"
    "NUL \<notin> set (join_path ss)"
    by simp_all
  from cons.prems have s: "s \<noteq> []" "CHR ''/'' \<notin> set s" "NUL \<notin> set s"
    by simp_all
  from s(1) have "hd s \<in> set s"
    by simp
  with s have hd: "hd s \<noteq> CHR ''/''"
    by metis
  have jp: "join_path (s # ss) = s @ ''/'' @ join_path ss"
    using cons.hyps(1) by (rule join_path_Cons)
  show ?case
    using s J hd by (simp add: jp NUL_def)
qed

text \<open>
  The matcher against the description of the pattern: for a path of one or more
  non-empty segments, with an optional leading and an optional trailing slash, at the
  depth of the pattern and on a property of the target name, \<open>check_search_target\<close>
  is the segment loop on the path without its leading slash, and returns 0 exactly
  when every segment matches the ancestor name of its level.
\<close>

lemma check_search_target_loop:
  assumes "target_path ctx = Some (lead @ join_path segs @ trail)"
    and "lead = [] \<or> lead = ''/''" and "trail = [] \<or> trail = ''/''"
    and "segs \<noteq> []" and "\<forall>s\<in>set segs. s \<noteq> [] \<and> CHR ''/'' \<notin> set s \<and> NUL \<notin> set s"
    and "target_name ctx = Some tn"
    and "depth ctx = int (length segs)" and "target_depth ctx = int (length segs)"
    and "be32 (image_buf ctx) (pr + 8) = Inr nameoff"
    and "c_strcmp (image_buf ctx) (strings ctx + unat nameoff) tn = Inr True"
  shows "check_search_target ctx pr
     = search_loop (image_buf ctx) (path ctx) (join_path segs @ trail) (length (join_path segs)) 0 0 0"
proof -
  let ?J = "join_path segs"
  let ?p = "lead @ ?J @ trail"
  let ?tp = "?J @ trail"
  let ?n = "length ?J"
  from join_path_facts [OF assms(4,5)]
  have J: "?J \<noteq> []" and hdJ: "hd ?J \<noteq> CHR ''/''" and lastJ: "last ?J \<noteq> CHR ''/''"
    and nulJ: "NUL \<notin> set ?J"
    by simp_all
  have nn: "\<forall>x\<in>set ?p. x \<noteq> NUL"
    using assms(2,3) nulJ by (auto simp: NUL_def)
  have "takeWhile (\<lambda>c. c \<noteq> NUL) ?p = ?p"
    unfolding takeWhile_eq_all_conv using nn by blast
  then have sl: "strlen_s ?p = length ?p"
    by (simp only: strlen_s_def)
  have tp0: "c_at ?tp 0 \<noteq> CHR ''/''"
    using J hdJ by (cases ?J) (auto simp: c_at_def)
  have lead: "(if c_at ?p 0 = CHR ''/'' then drop 1 ?p else ?p) = ?tp"
    using assms(2) tp0 by (auto simp: c_at_def)
  have tplen1: "(if c_at ?p 0 = CHR ''/'' then strlen_s ?p - 1 else strlen_s ?p) = ?n + length trail"
    using assms(2) tp0 sl by (auto simp: c_at_def)
  have n0: "?n \<noteq> 0" "?n + length trail \<noteq> 0"
    using J by simp_all
  have lastc: "?J ! (?n - 1) = last ?J"
    using J by (simp add: last_conv_nth)
  have tplen2: "(if c_at ?tp (?n + length trail - 1) = CHR ''/''
                 then ?n + length trail - 1 else ?n + length trail) = ?n"
    using assms(3) J lastJ lastc by (auto simp: c_at_def nth_append)
  have td: "\<not> target_depth ctx \<le> 0" "\<not> depth ctx \<noteq> target_depth ctx"
    using assms(4,7,8) by simp_all
  show ?thesis
    unfolding check_search_target_def Let_def
    by (simp only: assms(1,6,9,10) td lead tplen1 tplen2 n0 option.case bind_f_simps
        if_False if_True not_True_eq_False not_False_eq_True)
qed

lemma check_search_target_segments:
  assumes "target_path ctx = Some (lead @ join_path segs @ trail)"
    and "lead = [] \<or> lead = ''/''" and "trail = [] \<or> trail = ''/''"
    and "segs \<noteq> []" and "\<forall>s\<in>set segs. s \<noteq> [] \<and> CHR ''/'' \<notin> set s \<and> NUL \<notin> set s"
    and "target_name ctx = Some tn"
    and "depth ctx = int (length segs)" and "target_depth ctx = int (length segs)"
    and "be32 (image_buf ctx) (pr + 8) = Inr nameoff"
    and "c_strcmp (image_buf ctx) (strings ctx + unat nameoff) tn = Inr True"
    and "names_at (image_buf ctx) (path ctx) 0 names" and "length names = length segs"
  shows "check_search_target ctx pr = Inr 0 \<longleftrightarrow> list_all2 seg_matches segs names"
proof -
  have "check_search_target ctx pr
     = search_loop (image_buf ctx) (path ctx) (join_path segs @ trail) (length (join_path segs)) 0 0 0"
    using assms(1-10) by (rule check_search_target_loop)
  moreover have "search_loop (image_buf ctx) (path ctx) (join_path segs @ trail)
      (length (join_path segs)) 0 0 0 = Inr 0 \<longleftrightarrow> list_all2 seg_matches segs names"
    using assms(4,5,11,12) by (intro search_loop_segs) simp_all
  ultimately show ?thesis
    by simp
qed

text \<open>
  The ancestor stack: pushing a name at the level of the depth counter and dropping
  the innermost level keep it in step with the names of the open nodes.
\<close>

lemma names_at_iff:
  "names_at m pth d ns \<longleftrightarrow>
     (\<forall>i<length ns. \<exists>np. path_entry pth (d + i) = Inr np \<and> c_str_at m np (ns ! i))"
proof (induction ns arbitrary: d)
  case Nil
  show ?case by simp
next
  case (Cons n ns)
  show ?case
    by (auto simp: Cons.IH All_less_Suc2 split: sum.splits)
qed

lemma path_entry_update:
  "path_entry (pth[k := Some np]) i =
     (if i = k \<and> k < length pth then Inr np else path_entry pth i)"
  by (auto simp: path_entry_def)

lemma names_at_push:
  assumes "names_at m pth 0 anc" and "length anc < length pth" and "c_str_at m np nm"
  shows "names_at m (pth[length anc := Some np]) 0 (anc @ [nm])"
  using assms
  by (auto simp: names_at_iff path_entry_update nth_append less_Suc_eq)

lemma names_at_pop:
  "names_at m pth 0 anc \<Longrightarrow> names_at m pth 0 (butlast anc)"
  by (auto simp: names_at_iff nth_butlast)

text \<open>
  At any depth and on any property: the matcher returns a code, never a fault, and the
  code is 0 exactly when the target matches the property (its name, and its ancestors
  segment by segment).
\<close>

lemma check_search_target_code:
  assumes "target_path ctx = Some (lead @ join_path segs @ trail)"
    and "lead = [] \<or> lead = ''/''" and "trail = [] \<or> trail = ''/''"
    and "segs \<noteq> []" and "\<forall>s\<in>set segs. s \<noteq> [] \<and> CHR ''/'' \<notin> set s \<and> NUL \<notin> set s"
    and "target_name ctx = Some tn" and "NUL \<notin> set tn"
    and "target_depth ctx = int (length segs)" and "depth ctx = int (length anc)"
    and "be32 (image_buf ctx) (pr + 8) = Inr nameoff"
    and "c_str_at (image_buf ctx) (strings ctx + unat nameoff) nm"
    and "names_at (image_buf ctx) (path ctx) 0 anc"
  shows "\<exists>r. check_search_target ctx pr = Inr r \<and> (r = 0 \<longleftrightarrow> target_matches segs tn anc nm)"
proof (cases "length anc = length segs")
  case False
  then have "depth ctx \<noteq> target_depth ctx"
    using assms(8,9) by simp
  then have "check_search_target ctx pr = Inr (- 1)"
    by (simp add: check_search_target_def assms(1,6))
  moreover have "\<not> target_matches segs tn anc nm"
    using False by (auto simp: target_matches_def dest: list_all2_lengthD)
  ultimately show ?thesis by simp
next
  case True
  have cmp: "c_strcmp (image_buf ctx) (strings ctx + unat nameoff) tn = Inr (nm = tn)"
    using assms(11,7) by (rule c_strcmp_c_str_at)
  show ?thesis
  proof (cases "nm = tn")
    case False
    with cmp True assms(8,9) have "check_search_target ctx pr = Inr (- 1)"
      by (simp add: check_search_target_def assms(1,6,10))
    with False show ?thesis by (simp add: target_matches_def)
  next
    case eq: True
    from True assms(9) have d: "depth ctx = int (length segs)" by simp
    from cmp eq have cmp': "c_strcmp (image_buf ctx) (strings ctx + unat nameoff) tn = Inr True"
      by simp
    have "check_search_target ctx pr
      = search_loop (image_buf ctx) (path ctx) (join_path segs @ trail) (length (join_path segs)) 0 0 0"
      using assms(1-6) d assms(8,10) cmp' by (rule check_search_target_loop)
    moreover have "\<exists>r. search_loop (image_buf ctx) (path ctx) (join_path segs @ trail)
        (length (join_path segs)) 0 0 0 = Inr r \<and> (r = 0 \<longleftrightarrow> list_all2 seg_matches segs anc)"
      using assms(4,5,12) True by (intro search_loop_segs_code) simp_all
    ultimately show ?thesis
      using eq by (simp add: target_matches_def)
  qed
qed

lemma seg_matches_wildcard:
  "seg_matches (seg @ ''*'') nm \<longleftrightarrow> prefix seg nm"
  by (simp add: seg_matches_def)

text \<open>
  \<open>get_path_depth\<close> counts the segments: the depth that \<open>get_fdt_prop\<close> binds for a
  pattern is the number of its segments.
\<close>

lemma path_depth_loop_done:
  "tplen < i \<Longrightarrow> path_depth_loop tp tplen i dn d = d"
  by (subst path_depth_loop.simps) simp

lemma path_depth_loop_skip:
  assumes "\<forall>k. i \<le> k \<and> k < e \<longrightarrow> c_at tp k \<noteq> CHR ''/''" and "i \<le> e" and "e \<le> tplen"
  shows "path_depth_loop tp tplen i dn d = path_depth_loop tp tplen e dn d"
  using assms
proof (induction "e - i" arbitrary: i)
  case 0
  then show ?case by simp
next
  case (Suc x)
  then have lt: "i < e" by simp
  with Suc.prems have "c_at tp i \<noteq> CHR ''/''" and "i < tplen" by simp_all
  then have "path_depth_loop tp tplen i dn d = path_depth_loop tp tplen (i + 1) dn d"
    by (subst path_depth_loop.simps) simp
  also have "\<dots> = path_depth_loop tp tplen e dn d"
    using Suc.hyps(2) Suc.prems lt by (intro Suc.hyps(1)) auto
  finally show ?case .
qed

lemma path_depth_loop_segment:
  assumes seg: "take (length s) (drop dn tp) = s" and ne: "s \<noteq> []"
    and ns: "CHR ''/'' \<notin> set s"
    and e: "e = dn + length s" "e \<le> tplen" "c_at tp e = CHR ''/'' \<or> e = tplen"
  shows "path_depth_loop tp tplen dn dn d = path_depth_loop tp tplen (e + 1) (e + 1) (d + 1)"
proof -
  from seg have "length (take (length s) (drop dn tp)) = length s" by simp
  with ne have len: "dn + length s \<le> length tp" by (cases s) (auto simp: min_def split: if_splits)
  have "\<forall>k. dn \<le> k \<and> k < e \<longrightarrow> c_at tp k \<noteq> CHR ''/''"
  proof (intro allI impI)
    fix k assume k: "dn \<le> k \<and> k < e"
    then have kk: "k - dn < length s" using e(1) by auto
    have "tp ! k = drop dn tp ! (k - dn)"
      using k len by simp
    also have "\<dots> = take (length s) (drop dn tp) ! (k - dn)"
      using kk by simp
    also have "\<dots> = s ! (k - dn)"
      using seg by simp
    finally have "tp ! k \<in> set s"
      using kk by simp
    moreover have "k < length tp"
      using k e(1) len by simp
    ultimately show "c_at tp k \<noteq> CHR ''/''"
      using ns by (auto simp: c_at_def)
  qed
  then have "path_depth_loop tp tplen dn dn d = path_depth_loop tp tplen e dn d"
    using e(1,2) by (intro path_depth_loop_skip) simp_all
  also have "\<dots> = path_depth_loop tp tplen (e + 1) (e + 1) (d + 1)"
    using e ne by (subst path_depth_loop.simps) auto
  finally show ?thesis .
qed

lemma path_depth_loop_segs:
  assumes "segs \<noteq> []" and "\<forall>s\<in>set segs. s \<noteq> [] \<and> CHR ''/'' \<notin> set s"
    and "take (length (join_path segs)) (drop i tp) = join_path segs"
    and "tplen = i + length (join_path segs)"
  shows "path_depth_loop tp tplen i i d = d + int (length segs)"
  using assms
proof (induction segs arbitrary: i d rule: list_nonempty_induct)
  case (single s)
  then have "path_depth_loop tp tplen i i d
      = path_depth_loop tp tplen (tplen + 1) (tplen + 1) (d + 1)"
    by (intro path_depth_loop_segment [where s = s]) simp_all
  then show ?case
    by (simp add: path_depth_loop_done)
next
  case (cons s ss)
  from cons.prems(1) have ne: "s \<noteq> []" and ns: "CHR ''/'' \<notin> set s"
    and ss: "\<forall>s\<in>set ss. s \<noteq> [] \<and> CHR ''/'' \<notin> set s"
    by simp_all
  let ?J = "join_path ss"
  let ?e = "i + length s"
  have jp: "join_path (s # ss) = s @ ''/'' @ ?J"
    using cons.hyps(1) by (rule join_path_Cons)
  with cons.prems(2) have tk: "take (length (s @ ''/'' @ ?J)) (drop i tp) = s @ ''/'' @ ?J"
    by simp
  then have seg: "take (length s) (drop i tp) = s"
    by (rule take_append_eq)
  from tk have "length (take (length (s @ ''/'' @ ?J)) (drop i tp)) = length (s @ ''/'' @ ?J)"
    by simp
  then have lenb: "i + length s + 1 + length ?J \<le> length tp"
    by (auto simp: min_def split: if_splits)
  have "drop i tp ! length s = (s @ ''/'' @ ?J) ! length s"
    using tk by (metis length_append less_add_same_cancel1 nth_take length_greater_0_conv
        append_is_Nil_conv not_Cons_self2)
  then have slash: "c_at tp ?e = CHR ''/''"
    using lenb by (simp add: c_at_def nth_append)
  have tk': "take (length ?J) (drop (?e + 1) tp) = ?J"
  proof -
    have "drop (length s + 1) (take (length (s @ ''/'' @ ?J)) (drop i tp)) = ?J"
      using tk by simp
    then show ?thesis
      by (simp add: drop_take add.commute add.left_commute)
  qed
  have tplen: "tplen = (?e + 1) + length ?J"
    using cons.prems(3) jp by simp
  have "path_depth_loop tp tplen i i d = path_depth_loop tp tplen (?e + 1) (?e + 1) (d + 1)"
    using seg ne ns slash tplen by (intro path_depth_loop_segment [where s = s]) simp_all
  also have "\<dots> = (d + 1) + int (length ss)"
    using ss tk' tplen by (intro cons.IH) simp_all
  finally show ?case
    by simp
qed

lemma get_path_depth_segments:
  assumes "lead = [] \<or> lead = ''/''" and "trail = [] \<or> trail = ''/''"
    and "segs \<noteq> []" and "\<forall>s\<in>set segs. s \<noteq> [] \<and> CHR ''/'' \<notin> set s \<and> NUL \<notin> set s"
  shows "get_path_depth (lead @ join_path segs @ trail) = int (length segs)"
proof -
  let ?J = "join_path segs"
  let ?p = "lead @ ?J @ trail"
  let ?tp = "?J @ trail"
  let ?n = "length ?J"
  from join_path_facts [OF assms(3,4)]
  have J: "?J \<noteq> []" and hdJ: "hd ?J \<noteq> CHR ''/''" and lastJ: "last ?J \<noteq> CHR ''/''"
    and nulJ: "NUL \<notin> set ?J"
    by simp_all
  have nn: "\<forall>x\<in>set ?p. x \<noteq> NUL"
    using assms(1,2) nulJ by (auto simp: NUL_def)
  have "takeWhile (\<lambda>c. c \<noteq> NUL) ?p = ?p"
    unfolding takeWhile_eq_all_conv using nn by blast
  then have sl: "strlen_s ?p = length ?p"
    by (simp only: strlen_s_def)
  have tp0: "c_at ?tp 0 \<noteq> CHR ''/''"
    using J hdJ by (cases ?J) (auto simp: c_at_def)
  have lead: "(if c_at ?p 0 = CHR ''/'' then drop 1 ?p else ?p) = ?tp"
    using assms(1) tp0 by (auto simp: c_at_def)
  have tplen1: "(if c_at ?p 0 = CHR ''/'' then strlen_s ?p - 1 else strlen_s ?p) = ?n + length trail"
    using assms(1) tp0 sl by (auto simp: c_at_def)
  have n0: "?n \<noteq> 0" "?n + length trail \<noteq> 0"
    using J by simp_all
  have lastc: "?J ! (?n - 1) = last ?J"
    using J by (simp add: last_conv_nth)
  have tplen2: "(if c_at ?tp (?n + length trail - 1) = CHR ''/''
                 then ?n + length trail - 1 else ?n + length trail) = ?n"
    using assms(2) J lastJ lastc by (auto simp: c_at_def nth_append)
  have "get_path_depth ?p = path_depth_loop ?tp ?n 0 0 0"
    unfolding get_path_depth_def Let_def
    by (simp only: lead tplen1 tplen2 n0 if_False)
  also have "\<dots> = 0 + int (length segs)"
    using assms(3,4) by (intro path_depth_loop_segs) simp_all
  finally show ?thesis
    by simp
qed

section \<open>Facts about the walk over a tag stream\<close>

text \<open>One pass of the loop on each kind of record.\<close>

lemma walk_step_Nop_tag:
  "be32 (image_buf ctx) (pos ctx) = Inr FDT_NOP \<Longrightarrow>
     walk_step ctx = Inr (Inr (ctx\<lparr>pos := pos ctx + 4\<rparr>))"
  by (simp add: walk_step_def FDT_BEGIN_NODE_def FDT_PROP_def FDT_NOP_def)

lemma walk_step_End_node:
  "be32 (image_buf ctx) (pos ctx) = Inr FDT_END_NODE \<Longrightarrow>
     walk_step ctx = Inr (Inr ((if depth ctx > 0 then ctx\<lparr>depth := depth ctx - 1\<rparr> else ctx)
                                \<lparr>pos := pos ctx + 4\<rparr>))"
  by (simp add: walk_step_def FDT_BEGIN_NODE_def FDT_PROP_def FDT_NOP_def FDT_END_NODE_def)

lemma walk_step_End_tag:
  "be32 (image_buf ctx) (pos ctx) = Inr FDT_END \<Longrightarrow> walk_step ctx = Inr (Inl ctx)"
  by (simp add: walk_step_def FDT_BEGIN_NODE_def FDT_PROP_def FDT_NOP_def FDT_END_NODE_def
      FDT_END_def)

lemma walk_step_Begin_node:
  assumes "be32 (image_buf ctx) (pos ctx) = Inr FDT_BEGIN_NODE"
    and "c_str_at (image_buf ctx) (pos ctx + 4) nm" and "nm \<noteq> []"
    and "depth ctx = int d" and "d + 1 < 32" and "length (path ctx) = 33"
  shows "walk_step ctx = Inr (Inr (ctx\<lparr>path := (path ctx)[d := Some (pos ctx + 4)],
            depth := int d + 1, pos := pos ctx + tok_size (Begin_node nm)\<rparr>))"
proof -
  from assms(3) obtain x xs where nm: "nm = x # xs" by (cases nm) simp_all
  with assms(2) c_str_at_Cons [of "image_buf ctx" "pos ctx + 4" x xs]
  have x: "rd8 (image_buf ctx) (pos ctx + 4) = Inr x" "x \<noteq> NUL" by simp_all
  let ?c1 = "ctx\<lparr>path := (path ctx)[d := Some (pos ctx + 4)], depth := int d + 1\<rparr>"
  have en: "enter_node ctx = Inr (Some ?c1)"
    using x assms(4,5,6) by (simp add: enter_node_def)
  have d1: "depth ?c1 \<noteq> MAX_FDT_DEPTH"
    using assms(5) by (simp add: MAX_FDT_DEPTH_def)
  have sl: "c_strlen (image_buf ?c1) (pos ?c1 + 4) = Inr (length nm)"
    using c_strlen_c_str_at [OF assms(2)] by simp
  show ?thesis
    unfolding walk_step_def
    by (simp only: assms(1) en d1 sl sum.case option.case if_True if_False) simp
qed

lemma walk_step_root:
  assumes "be32 (image_buf ctx) (pos ctx) = Inr FDT_BEGIN_NODE"
    and "c_str_at (image_buf ctx) (pos ctx + 4) []" and "depth ctx = - 1"
  shows "walk_step ctx = Inr (Inr (ctx\<lparr>depth := 0, pos := pos ctx + 8\<rparr>))"
proof -
  let ?c1 = "ctx\<lparr>depth := 0\<rparr>"
  have en: "enter_node ctx = Inr (Some ?c1)"
    using c_str_at_Nil [OF assms(2)] assms(3) by (simp add: enter_node_def)
  have d1: "depth ?c1 \<noteq> MAX_FDT_DEPTH"
    by (simp add: MAX_FDT_DEPTH_def)
  have sl: "c_strlen (image_buf ?c1) (pos ?c1 + 4) = Inr 0"
    using c_strlen_c_str_at [OF assms(2)] by simp
  show ?thesis
    unfolding walk_step_def
    by (simp only: assms(1) en d1 sl sum.case option.case if_True if_False) simp
qed

lemma walk_step_Property:
  assumes "be32 (image_buf ctx) (pos ctx) = Inr FDT_PROP"
    and "be32 (image_buf ctx) (pos ctx + 4) = Inr len" and "len < INT_MAX"
    and "be32 (image_buf ctx) (pos ctx + 8) = Inr off"
    and "check_search_target ctx (pos ctx) = Inr r"
  shows "walk_step ctx =
     (if r = 0 then Inr (Inl (ctx\<lparr>res := Some (pos ctx)\<rparr>))
      else Inr (Inr (ctx\<lparr>pos := pos ctx + tok_size (Property nm len)\<rparr>)))"
proof -
  have t: "FDT_PROP \<noteq> FDT_BEGIN_NODE"
    by (simp add: FDT_PROP_def FDT_BEGIN_NODE_def)
  have l: "\<not> INT_MAX \<le> len"
    using assms(3) by simp
  show ?thesis
    unfolding walk_step_def
    by (simp only: assms(1,2,4,5) t l sum.case if_True if_False tok_size.simps)
      (simp add: add.assoc)
qed

text \<open>
  The walk over a sequence of records, by induction on the sequence: it returns with
  the first match of the sequence in the result slot, and with one invocation alive
  for itself and one for every \<open>BEGIN_NODE\<close> record it has entered.
\<close>

lemma frames_call:
  "e = Some (Inr (None, c, k)) \<Longrightarrow>
     map_option (map_sum id (map_prod id (map_prod id Suc))) e = Some (Inr (None, c, Suc k))"
  by simp

lemma walk_tokens_frames:
  assumes "lead = [] \<or> lead = ''/''" and "trail = [] \<or> trail = ''/''"
    and "segs \<noteq> []" and "\<forall>s\<in>set segs. s \<noteq> [] \<and> CHR ''/'' \<notin> set s \<and> NUL \<notin> set s"
    and "NUL \<notin> set tn"
  shows "toks_at (image_buf ctx) (strings ctx) (pos ctx) toks \<Longrightarrow>
     well_nested (length anc) toks \<Longrightarrow> End_tag \<in> set toks \<Longrightarrow>
     depth ctx = int (length anc) \<Longrightarrow> length anc < 32 \<Longrightarrow>
     names_at (image_buf ctx) (path ctx) 0 anc \<Longrightarrow> length (path ctx) = 33 \<Longrightarrow>
     res ctx = None \<Longrightarrow> target_path ctx = Some (lead @ join_path segs @ trail) \<Longrightarrow>
     target_name ctx = Some tn \<Longrightarrow> target_depth ctx = int (length segs) \<Longrightarrow>
     length toks < n \<Longrightarrow>
     \<exists>c. enum_fdt_frames n ctx
            = Some (Inr (None, c, Suc (calls_made (target_matches segs tn) anc toks)))
          \<and> res c = first_match (target_matches segs tn) anc (pos ctx) toks"
proof (induction toks arbitrary: ctx anc n)
  case Nil
  then show ?case by simp
next
  case (Cons t ts)
  let ?M = "target_matches segs tn"
  from Cons.prems(12) obtain n' where n: "n = Suc n'" and n': "length ts < n'"
    by (cases n) simp_all
  from Cons.prems(1) have at: "tok_at (image_buf ctx) (strings ctx) (pos ctx) t"
    and rest: "toks_at (image_buf ctx) (strings ctx) (pos ctx + tok_size t) ts"
    by simp_all
  have tags: "FDT_END_NODE \<noteq> FDT_BEGIN_NODE" "FDT_PROP \<noteq> FDT_BEGIN_NODE"
    "FDT_NOP \<noteq> FDT_BEGIN_NODE" "FDT_END \<noteq> FDT_BEGIN_NODE"
    by (simp_all add: FDT_END_NODE_def FDT_BEGIN_NODE_def FDT_PROP_def FDT_NOP_def FDT_END_def)
  show ?case
  proof (cases t)
    case (Begin_node nm)
    with at Cons.prems(2) have tag: "be32 (image_buf ctx) (pos ctx) = Inr FDT_BEGIN_NODE"
      and nm: "c_str_at (image_buf ctx) (pos ctx + 4) nm" and ne: "nm \<noteq> []"
      and d: "length anc + 1 < 32" and wn: "well_nested (length anc + 1) ts"
      by simp_all
    let ?c = "ctx\<lparr>path := (path ctx)[length anc := Some (pos ctx + 4)],
            depth := int (length anc) + 1, pos := pos ctx + tok_size (Begin_node nm)\<rparr>"
    have st: "walk_step ctx = Inr (Inr ?c)"
      using tag nm ne Cons.prems(4) d Cons.prems(7) by (rule walk_step_Begin_node)
    have na: "names_at (image_buf ?c) (path ?c) 0 (anc @ [nm])"
      using names_at_push [OF Cons.prems(6) _ nm] Cons.prems(5,7) by simp
    have "\<exists>c. enum_fdt_frames n' ?c = Some (Inr (None, c, Suc (calls_made ?M (anc @ [nm]) ts)))
          \<and> res c = first_match ?M (anc @ [nm]) (pos ?c) ts"
      using rest Begin_node wn Cons.prems(3,7,8,9,10,11) d na n'
      by (intro Cons.IH) simp_all
    then obtain c where c: "enum_fdt_frames n' ?c
          = Some (Inr (None, c, Suc (calls_made ?M (anc @ [nm]) ts)))"
      and r: "res c = first_match ?M (anc @ [nm]) (pos ?c) ts"
      by blast
    have "enum_fdt_frames n ctx
        = map_option (map_sum id (map_prod id (map_prod id Suc))) (enum_fdt_frames n' ?c)"
      unfolding n enum_fdt_frames_Suc st using tag by simp
    also have "\<dots> = Some (Inr (None, c, Suc (Suc (calls_made ?M (anc @ [nm]) ts))))"
      using c by (rule frames_call)
    finally show ?thesis
      using r Begin_node by simp
  next
    case End_node
    with at Cons.prems(2) have tag: "be32 (image_buf ctx) (pos ctx) = Inr FDT_END_NODE"
      and wn: "well_nested (length anc - 1) ts"
      by simp_all
    let ?c = "(if depth ctx > 0 then ctx\<lparr>depth := depth ctx - 1\<rparr> else ctx)\<lparr>pos := pos ctx + 4\<rparr>"
    have st: "walk_step ctx = Inr (Inr ?c)"
      using tag by (rule walk_step_End_node)
    have dc: "depth ?c = int (length (butlast anc))"
      using Cons.prems(4) by (cases anc) simp_all
    have na: "names_at (image_buf ?c) (path ?c) 0 (butlast anc)"
      using names_at_pop [OF Cons.prems(6)] by simp
    have "\<exists>c. enum_fdt_frames n' ?c = Some (Inr (None, c, Suc (calls_made ?M (butlast anc) ts)))
          \<and> res c = first_match ?M (butlast anc) (pos ?c) ts"
      using rest End_node wn Cons.prems(3,5,7,8,9,10,11) dc na n'
      by (intro Cons.IH) simp_all
    moreover have "enum_fdt_frames n ctx = enum_fdt_frames n' ?c"
      unfolding n enum_fdt_frames_Suc st using tag tags by simp
    ultimately show ?thesis
      using End_node by simp
  next
    case (Property nm len)
    with at obtain off where tag: "be32 (image_buf ctx) (pos ctx) = Inr FDT_PROP"
      and len: "be32 (image_buf ctx) (pos ctx + 4) = Inr len" "len < INT_MAX"
      and off: "be32 (image_buf ctx) (pos ctx + 8) = Inr off"
      and nm: "c_str_at (image_buf ctx) (strings ctx + unat off) nm"
      by (auto split: sum.splits)
    from check_search_target_code [OF Cons.prems(9) assms(1-4) Cons.prems(10) assms(5)
        Cons.prems(11) Cons.prems(4) off nm Cons.prems(6)]
    obtain r where r: "check_search_target ctx (pos ctx) = Inr r"
      and r0: "r = 0 \<longleftrightarrow> ?M anc nm"
      by blast
    have st: "walk_step ctx =
       (if r = 0 then Inr (Inl (ctx\<lparr>res := Some (pos ctx)\<rparr>))
        else Inr (Inr (ctx\<lparr>pos := pos ctx + tok_size (Property nm len)\<rparr>)))"
      using tag len off r by (rule walk_step_Property)
    show ?thesis
    proof (cases "r = 0")
      case True
      with st r0 Property show ?thesis
        by (simp add: n enum_fdt_frames_Suc)
    next
      case False
      let ?c = "ctx\<lparr>pos := pos ctx + tok_size (Property nm len)\<rparr>"
      from Cons.prems(2,3) Property have wn: "well_nested (length anc) ts"
        and e: "End_tag \<in> set ts"
        by simp_all
      have "\<exists>c. enum_fdt_frames n' ?c = Some (Inr (None, c, Suc (calls_made ?M anc ts)))
          \<and> res c = first_match ?M anc (pos ?c) ts"
        using rest Property wn e Cons.prems(4,5,6,7,8,9,10,11) n'
        by (intro Cons.IH) simp_all
      moreover have "enum_fdt_frames n ctx = enum_fdt_frames n' ?c"
        unfolding n enum_fdt_frames_Suc using st False tag tags by simp
      ultimately show ?thesis
        using False r0 Property by simp
    qed
  next
    case Nop_tag
    with at Cons.prems(2,3) have tag: "be32 (image_buf ctx) (pos ctx) = Inr FDT_NOP"
      and wn: "well_nested (length anc) ts" and e: "End_tag \<in> set ts"
      by simp_all
    let ?c = "ctx\<lparr>pos := pos ctx + 4\<rparr>"
    have st: "walk_step ctx = Inr (Inr ?c)"
      using tag by (rule walk_step_Nop_tag)
    have "\<exists>c. enum_fdt_frames n' ?c = Some (Inr (None, c, Suc (calls_made ?M anc ts)))
          \<and> res c = first_match ?M anc (pos ?c) ts"
      using rest Nop_tag wn e Cons.prems(4,5,6,7,8,9,10,11) n'
      by (intro Cons.IH) simp_all
    moreover have "enum_fdt_frames n ctx = enum_fdt_frames n' ?c"
      unfolding n enum_fdt_frames_Suc st using tag tags by simp
    ultimately show ?thesis
      using Nop_tag by simp
  next
    case End_tag
    with at have tag: "be32 (image_buf ctx) (pos ctx) = Inr FDT_END"
      by simp
    have st: "walk_step ctx = Inr (Inl ctx)"
      using tag by (rule walk_step_End_tag)
    then show ?thesis
      using End_tag Cons.prems(8) by (simp add: n enum_fdt_frames_Suc)
  qed
qed

lemma walk_tokens:
  assumes "lead = [] \<or> lead = ''/''" and "trail = [] \<or> trail = ''/''"
    and "segs \<noteq> []" and "\<forall>s\<in>set segs. s \<noteq> [] \<and> CHR ''/'' \<notin> set s \<and> NUL \<notin> set s"
    and "NUL \<notin> set tn"
    and "toks_at (image_buf ctx) (strings ctx) (pos ctx) toks"
    and "well_nested (length anc) toks" and "End_tag \<in> set toks"
    and "depth ctx = int (length anc)" and "length anc < 32"
    and "names_at (image_buf ctx) (path ctx) 0 anc" and "length (path ctx) = 33"
    and "res ctx = None" and "target_path ctx = Some (lead @ join_path segs @ trail)"
    and "target_name ctx = Some tn" and "target_depth ctx = int (length segs)"
    and "length toks < n"
  shows "\<exists>c. enum_fdt_nodes n ctx = Some (Inr (None, c))
          \<and> res c = first_match (target_matches segs tn) anc (pos ctx) toks"
proof -
  from walk_tokens_frames [OF assms]
  obtain c where c: "enum_fdt_frames n ctx
            = Some (Inr (None, c, Suc (calls_made (target_matches segs tn) anc toks)))"
    and r: "res c = first_match (target_matches segs tn) anc (pos ctx) toks"
    by blast
  from c enum_fdt_frames_walk [of n ctx] have "enum_fdt_nodes n ctx = Some (Inr (None, c))"
    by simp
  with r show ?thesis by blast
qed

text \<open>
  The search over the records of an encoded tree is the search over its pre-order
  listing, and the conditions on the records are those on the tree.
\<close>

lemma first_hit_simps [simp]:
  "first_hit M [] = None"
  "first_hit M ((a, nm, q) # ps) = (if M a nm then Some q else first_hit M ps)"
  by (simp_all add: first_hit_def)

lemma first_hit_append:
  "first_hit M (xs @ ys) = (case first_hit M xs of None \<Rightarrow> first_hit M ys | Some q \<Rightarrow> Some q)"
  by (induction xs) (auto simp: first_hit_def)

lemma stream_size_simps [simp]:
  "stream_size [] = 0" "stream_size (t # ts) = tok_size t + stream_size ts"
  "stream_size (xs @ ys) = stream_size xs + stream_size ys"
  by (simp_all add: stream_size_def)

lemma first_match_stream:
  "first_match M anc p (concat (map tokens its) @ rest) =
     (case first_hit M (preorder anc p its) of
        None \<Rightarrow> first_match M anc (p + stream_size (concat (map tokens its))) rest
      | Some q \<Rightarrow> Some q)"
proof (induction anc p its arbitrary: rest rule: preorder.induct)
  case (1 anc p)
  show ?case by simp
next
  case (2 anc p nm len its)
  show ?case
    by (simp add: "2.IH" add.assoc del: tok_size.simps split: option.splits)
next
  case (3 anc p its)
  show ?case
    by (simp add: "3.IH" add.assoc split: option.splits)
next
  case (4 anc p nm kids its)
  let ?k = "concat (map tokens kids)"
  let ?b = "tok_size (Begin_node nm)"
  have sz: "stream_size (tokens (Node_item nm kids)) = ?b + stream_size ?k + 4"
    by (simp del: tok_size.simps(1))
  have "first_match M anc p (concat (map tokens (Node_item nm kids # its)) @ rest)
      = first_match M (anc @ [nm]) (p + ?b) (?k @ End_node # concat (map tokens its) @ rest)"
    by (simp del: tok_size.simps)
  also have "\<dots> = (case first_hit M (preorder (anc @ [nm]) (p + ?b) kids) of
        None \<Rightarrow> first_match M anc (p + stream_size (tokens (Node_item nm kids)))
                  (concat (map tokens its) @ rest)
      | Some q \<Rightarrow> Some q)"
    unfolding "4.IH"(1) sz by (simp add: add.assoc del: tok_size.simps split: option.splits)
  also have "\<dots> = (case first_hit M (preorder anc p (Node_item nm kids # its)) of
        None \<Rightarrow> first_match M anc
           (p + stream_size (concat (map tokens (Node_item nm kids # its)))) rest
      | Some q \<Rightarrow> Some q)"
    unfolding "4.IH"(2)
    by (simp add: first_hit_append add.assoc del: tok_size.simps tokens.simps
        split: option.splits)
  finally show ?case .
qed

lemma well_nested_stream:
  "well_nested d (concat (map tokens its) @ rest) \<longleftrightarrow> items_ok d its \<and> well_nested d rest"
proof (induction d its arbitrary: rest rule: items_ok.induct)
  case (4 d nm kids its)
  show ?case
  proof (cases "nm \<noteq> [] \<and> d + 1 < 32")
    case False
    then show ?thesis by auto
  next
    case True
    then have ih1: "well_nested (d + 1) (concat (map tokens kids) @ r)
        \<longleftrightarrow> items_ok (d + 1) kids \<and> well_nested (d + 1) r" for r
      using "4.IH"(1) by blast
    have "well_nested d (concat (map tokens (Node_item nm kids # its)) @ rest)
      \<longleftrightarrow> well_nested (d + 1) (concat (map tokens kids) @ End_node # concat (map tokens its) @ rest)"
      using True by simp
    also have "\<dots> \<longleftrightarrow> items_ok (d + 1) kids \<and> well_nested d (concat (map tokens its) @ rest)"
      unfolding ih1 by simp
    also have "\<dots> \<longleftrightarrow> items_ok (d + 1) kids \<and> items_ok d its \<and> well_nested d rest"
      using "4.IH"(2) True by simp
    finally show ?thesis
      using True by auto
  qed
qed simp_all

lemma toks_at_length:
  "toks_at m strs p ts \<Longrightarrow> ts \<noteq> [] \<Longrightarrow> p + 4 * length ts \<le> length m"
proof (induction ts arbitrary: p)
  case Nil
  then show ?case by simp
next
  case (Cons t ts)
  then have at: "tok_at m strs p t" and rest: "toks_at m strs (p + tok_size t) ts"
    by simp_all
  from at have b: "p + 4 \<le> length m"
    by (cases t) (auto dest: be32_Inr_bound)
  have sz: "4 \<le> tok_size t"
    by (cases t) simp_all
  show ?case
  proof (cases ts)
    case Nil
    with b show ?thesis by simp
  next
    case (Cons a list)
    with Cons.IH [OF rest] sz show ?thesis by simp
  qed
qed

text \<open>
  The walk from the root of an encoded tree, and the lookup on a blob holding one.
\<close>

lemma walk_tree:
  assumes "toks_at (image_buf ctx) (strings ctx) (pos ctx) (tokens (Node_item [] its) @ [End_tag])"
    and "items_ok 0 its"
    and "depth ctx = - 1" and "length (path ctx) = 33" and "res ctx = None"
    and "target_path ctx = Some (lead @ join_path segs @ trail)"
    and "lead = [] \<or> lead = ''/''" and "trail = [] \<or> trail = ''/''"
    and "segs \<noteq> []" and "\<forall>s\<in>set segs. s \<noteq> [] \<and> CHR ''/'' \<notin> set s \<and> NUL \<notin> set s"
    and "target_name ctx = Some tn" and "NUL \<notin> set tn"
    and "target_depth ctx = int (length segs)"
    and "length (image_buf ctx) < n"
  shows "\<exists>c. enum_fdt_nodes n ctx = Some (Inr (None, c))
     \<and> res c = first_hit (target_matches segs tn) (preorder [] (pos ctx + 8) its)
     \<and> (\<forall>q. res c = Some q \<longrightarrow> pos c = q)"
proof -
  let ?ts = "concat (map tokens its) @ [End_node, End_tag]"
  let ?c0 = "ctx\<lparr>depth := 0, pos := pos ctx + 8\<rparr>"
  let ?M = "target_matches segs tn"
  have tk: "tokens (Node_item [] its) @ [End_tag] = Begin_node [] # ?ts"
    by simp
  from assms(1) have root: "be32 (image_buf ctx) (pos ctx) = Inr FDT_BEGIN_NODE"
    "c_str_at (image_buf ctx) (pos ctx + 4) []"
    and rest: "toks_at (image_buf ctx) (strings ctx) (pos ctx + 8) ?ts"
    unfolding tk by simp_all
  have st: "walk_step ctx = Inr (Inr ?c0)"
    using root assms(3) by (rule walk_step_root)
  from toks_at_length [OF assms(1)] have "4 * (length ?ts + 1) \<le> length (image_buf ctx)"
    unfolding tk by simp
  with assms(14) obtain n' where n: "n = Suc n'" and n': "length ?ts < n'"
    by (cases n) simp_all
  have wn: "well_nested (length ([] :: string list)) ?ts"
    using assms(2) by (simp add: well_nested_stream)
  have "\<exists>c. enum_fdt_nodes n' ?c0 = Some (Inr (None, c))
          \<and> res c = first_match ?M [] (pos ?c0) ?ts"
    using assms(7,8,9,10,12) _ wn
  proof (rule walk_tokens)
    show "toks_at (image_buf ?c0) (strings ?c0) (pos ?c0) ?ts"
      using rest by simp
  qed (use assms(4,5,6,11,13) n' in simp_all)
  then obtain c where c: "enum_fdt_nodes n' ?c0 = Some (Inr (None, c))"
    and r: "res c = first_match ?M [] (pos ctx + 8) ?ts"
    by auto
  have e: "enum_fdt_nodes n ctx = Some (Inr (None, c))"
    using st c by (simp add: n enum_fdt_nodes_Suc)
  have "first_match ?M [] (pos ctx + 8) ?ts = first_hit ?M (preorder [] (pos ctx + 8) its)"
    by (simp add: first_match_stream split: option.splits)
  with r have r': "res c = first_hit ?M (preorder [] (pos ctx + 8) its)"
    by simp
  have "\<forall>q. res c = Some q \<longrightarrow> pos c = q"
    using enum_first_match [OF e] assms(5) by blast
  with e r' show ?thesis
    by blast
qed

lemma init_fdt_ctx_fields:
  "init_fdt_ctx img = Inr (0, ctx0) \<Longrightarrow>
     image_buf ctx0 = img \<and> length (path ctx0) = 33"
  by (auto simp: init_fdt_ctx_def bind_f_eq_Inr zero_ctx_def split: if_splits)

lemma get_fdt_prop_first_match:
  assumes "init_fdt_ctx img = Inr (0, ctx0)"
    and "toks_at img (strings ctx0) (tree ctx0) (tokens (Node_item [] its) @ [End_tag])"
    and "be32 img (tree ctx0 + 4) = Inr 0"
    and "items_ok 0 its"
    and "lead = [] \<or> lead = ''/''" and "trail = [] \<or> trail = ''/''"
    and "segs \<noteq> []" and "\<forall>s\<in>set segs. s \<noteq> [] \<and> CHR ''/'' \<notin> set s \<and> NUL \<notin> set s"
    and "NUL \<notin> set tn"
    and "length img < fuel"
  shows "get_fdt_prop fuel img (Some (lead @ join_path segs @ trail)) (Some tn)
     = Some (Inr (first_hit (target_matches segs tn) (preorder [] (tree ctx0 + 8) its)))"
proof -
  let ?p = "lead @ join_path segs @ trail"
  let ?ctx = "ctx0\<lparr>target_depth := int (length segs), target_path := Some ?p,
      target_name := Some tn, pos := tree ctx0, res := None, depth := - 1\<rparr>"
  from init_fdt_ctx_fields [OF assms(1)]
  have img: "image_buf ctx0 = img" and pl: "length (path ctx0) = 33"
    by simp_all
  have td: "get_path_depth ?p = int (length segs)"
    using assms(5,6,7,8) by (rule get_path_depth_segments)
  from assms(2) have root: "be32 img (tree ctx0) = Inr FDT_BEGIN_NODE"
    by simp
  have "\<exists>c. enum_fdt_nodes fuel ?ctx = Some (Inr (None, c))
     \<and> res c = first_hit (target_matches segs tn) (preorder [] (pos ?ctx + 8) its)
     \<and> (\<forall>q. res c = Some q \<longrightarrow> pos c = q)"
  proof (rule walk_tree [where lead = lead and trail = trail])
    show "toks_at (image_buf ?ctx) (strings ?ctx) (pos ?ctx) (tokens (Node_item [] its) @ [End_tag])"
      using assms(2) img by simp
  qed (use assms img pl in simp_all)
  then obtain c where c: "enum_fdt_nodes fuel ?ctx = Some (Inr (None, c))"
    and r: "res c = first_hit (target_matches segs tn) (preorder [] (tree ctx0 + 8) its)"
    by auto
  have "get_fdt_prop fuel img (Some ?p) (Some tn) = Some (Inr (res c))"
    unfolding get_fdt_prop_def Let_def
    using assms(1,3) root td c by (simp add: assms(7))
  with r show ?thesis
    by simp
qed

text \<open>
  The invocations alive at the end of a walk that finds nothing: one for the call of
  \<open>get_fdt_prop\<close>, one for the root and one for every node of the tree, whatever
  the nesting.
\<close>

lemma calls_made_stream:
  "first_hit M (preorder anc p its) = None \<Longrightarrow>
     calls_made M anc (concat (map tokens its) @ rest) = node_count its + calls_made M anc rest"
proof (induction anc p its arbitrary: rest rule: preorder.induct)
  case (1 anc p)
  show ?case by simp
next
  case (2 anc p nm len its)
  from "2.prems" have "\<not> M anc nm"
    and "first_hit M (preorder anc (p + tok_size (Property nm len)) its) = None"
    by (simp_all del: tok_size.simps split: if_splits)
  then show ?case
    using "2.IH" [of rest] by simp
next
  case (3 anc p its)
  then show ?case by simp
next
  case (4 anc p nm kids its)
  from "4.prems"
  have k: "first_hit M (preorder (anc @ [nm]) (p + tok_size (Begin_node nm)) kids) = None"
    and i: "first_hit M (preorder anc (p + stream_size (tokens (Node_item nm kids))) its) = None"
    by (simp_all add: first_hit_append del: tok_size.simps tokens.simps split: option.splits)
  have "calls_made M anc (concat (map tokens (Node_item nm kids # its)) @ rest)
      = Suc (calls_made M (anc @ [nm])
          (concat (map tokens kids) @ End_node # concat (map tokens its) @ rest))"
    by simp
  also have "\<dots> = Suc (node_count kids + calls_made M anc (concat (map tokens its) @ rest))"
    using "4.IH"(1) [OF k] by simp
  also have "\<dots> = Suc (node_count kids + (node_count its + calls_made M anc rest))"
    using "4.IH"(2) [OF i] by simp
  finally show ?case by simp
qed

lemma enum_fdt_frames_tree:
  assumes "toks_at (image_buf ctx) (strings ctx) (pos ctx) (tokens (Node_item [] its) @ [End_tag])"
    and "items_ok 0 its"
    and "depth ctx = - 1" and "length (path ctx) = 33" and "res ctx = None"
    and "target_path ctx = Some (lead @ join_path segs @ trail)"
    and "lead = [] \<or> lead = ''/''" and "trail = [] \<or> trail = ''/''"
    and "segs \<noteq> []" and "\<forall>s\<in>set segs. s \<noteq> [] \<and> CHR ''/'' \<notin> set s \<and> NUL \<notin> set s"
    and "target_name ctx = Some tn" and "NUL \<notin> set tn"
    and "target_depth ctx = int (length segs)"
    and "length (image_buf ctx) < n"
    and "first_hit (target_matches segs tn) (preorder [] (pos ctx + 8) its) = None"
  shows "\<exists>c. enum_fdt_frames n ctx = Some (Inr (None, c, node_count its + 2)) \<and> res c = None"
proof -
  let ?ts = "concat (map tokens its) @ [End_node, End_tag]"
  let ?c0 = "ctx\<lparr>depth := 0, pos := pos ctx + 8\<rparr>"
  let ?M = "target_matches segs tn"
  have tk: "tokens (Node_item [] its) @ [End_tag] = Begin_node [] # ?ts"
    by simp
  from assms(1) have root: "be32 (image_buf ctx) (pos ctx) = Inr FDT_BEGIN_NODE"
    "c_str_at (image_buf ctx) (pos ctx + 4) []"
    and rest: "toks_at (image_buf ctx) (strings ctx) (pos ctx + 8) ?ts"
    unfolding tk by simp_all
  have st: "walk_step ctx = Inr (Inr ?c0)"
    using root assms(3) by (rule walk_step_root)
  from toks_at_length [OF assms(1)] have "4 * (length ?ts + 1) \<le> length (image_buf ctx)"
    unfolding tk by simp
  with assms(14) obtain n' where n: "n = Suc n'" and n': "length ?ts < n'"
    by (cases n) simp_all
  have wn: "well_nested (length ([] :: string list)) ?ts"
    using assms(2) by (simp add: well_nested_stream)
  have "\<exists>c. enum_fdt_frames n' ?c0 = Some (Inr (None, c, Suc (calls_made ?M [] ?ts)))
          \<and> res c = first_match ?M [] (pos ?c0) ?ts"
    using assms(7,8,9,10,12) _ wn
  proof (rule walk_tokens_frames)
    show "toks_at (image_buf ?c0) (strings ?c0) (pos ?c0) ?ts"
      using rest by simp
  qed (use assms(4,5,6,11,13) n' in simp_all)
  then obtain c where c: "enum_fdt_frames n' ?c0 = Some (Inr (None, c, Suc (calls_made ?M [] ?ts)))"
    and r: "res c = first_match ?M [] (pos ctx + 8) ?ts"
    by auto
  have cm: "calls_made ?M [] ?ts = node_count its"
    using calls_made_stream [OF assms(15), of "[End_node, End_tag]"] by simp
  have fm: "first_match ?M [] (pos ctx + 8) ?ts = None"
    using assms(15) by (simp add: first_match_stream)
  have "enum_fdt_frames n ctx
      = map_option (map_sum id (map_prod id (map_prod id Suc))) (enum_fdt_frames n' ?c0)"
    unfolding n enum_fdt_frames_Suc st using root(1) by simp
  also have "\<dots> = Some (Inr (None, c, Suc (Suc (node_count its))))"
    using c cm by simp
  finally show ?thesis
    using r fm by simp
qed

section \<open>Claims about the blob locator and the header validator\<close>

text \<open>
  C1. The claim: for every buffer shorter than the header size plus 8 (48 bytes),
  \<open>find_fdt_offset\<close> returns \<open>-1\<close>, reads nothing outside the buffer and scans no
  candidate offset. The code computes the loop bound \<open>size - 40 - 8\<close> in unsigned
  64-bit arithmetic, so for a size below 48 the bound wraps to a huge value and the scan
  runs: on a 47-byte buffer that starts with a well-formed header it returns offset 0,
  and on four zero bytes its second candidate read leaves the buffer.
\<close>

theorem find_fdt_offset_short_buffer_scans:
  "length short_buf = 47
   \<and> find_fdt_offset short_buf (word_of_nat (length short_buf)) 0 = Inr 0
   \<and> find_fdt_offset (replicate 4 NUL) (word_of_nat (length (replicate 4 NUL :: byte list))) 0
       = Inl OutOfBounds"
  by code_simp

text \<open>
  C3. The claim: strict validation rejects a struct block (and a strings block) whose
  offset plus size exceeds the total size, the sum taken in exact arithmetic. The code
  adds the two \<open>uint32_t\<close> fields with wrap-around: with total size 200, a struct
  block at offset 56 of declared size \<open>0xffffffff\<close> has the exact end
  \<open>4294967351\<close> and the 32-bit end 55, and the header is accepted; likewise a strings
  block at offset 120 of declared size \<open>0xffffff90\<close>.
\<close>

theorem get_fdt_totalsize_containment_wraps:
  "(56 :: int) + 0xffffffff > 200
   \<and> get_fdt_totalsize (hdr_bytes 0xd00dfeed 200 56 120 40 17 16 0 16 0xffffffff) 0 True = Inr 200
   \<and> (120 :: int) + 0xffffff90 > 200
   \<and> get_fdt_totalsize (hdr_bytes 0xd00dfeed 200 56 120 40 17 16 0 0xffffff90 64) 0 True = Inr 200"
  by code_simp

theorem get_fdt_totalsize_containment_wraps_witness:
  "get_fdt_totalsize (hdr_bytes 0xd00dfeed 200 56 120 40 17 16 0 16 0xffffffff) 0 True \<noteq> Inr (- 1)
   \<and> get_fdt_totalsize (hdr_bytes 0xd00dfeed 200 56 120 40 17 16 0 0xffffff90 64) 0 True \<noteq> Inr (- 1)"
  using get_fdt_totalsize_containment_wraps by simp

text \<open>
  C6. The claim: a header that satisfies all invariants validates to its total size,
  and each invariant gates acceptance on its own, so that one field out of range gives
  Invalid. The header below validates to 200; with the magic, the total size, the
  version, the last compatible version, the struct offset, the strings offset or the
  boot CPU id put out of range it is rejected; with only the struct size changed from
  64 to \<open>0xfffffff0\<close>, which puts the block's end far beyond the total size, it still
  validates to 200 (the 32-bit sum wraps to 40).
\<close>

theorem get_fdt_totalsize_gating:
  "get_fdt_totalsize (hdr_bytes 0xd00dfeed 200 56 120 40 17 16 0 16 64) 0 True = Inr 200
   \<and> get_fdt_totalsize (hdr_bytes 0xd00dfeee 200 56 120 40 17 16 0 16 64) 0 True = Inr (- 1)
   \<and> get_fdt_totalsize (hdr_bytes 0xd00dfeed 167 56 120 40 17 16 0 16 64) 0 True = Inr (- 1)
   \<and> get_fdt_totalsize (hdr_bytes 0xd00dfeed 200 56 120 40 18 16 0 16 64) 0 True = Inr (- 1)
   \<and> get_fdt_totalsize (hdr_bytes 0xd00dfeed 200 56 120 40 17 17 0 16 64) 0 True = Inr (- 1)
   \<and> get_fdt_totalsize (hdr_bytes 0xd00dfeed 200 40 120 40 17 16 0 16 64) 0 True = Inr (- 1)
   \<and> get_fdt_totalsize (hdr_bytes 0xd00dfeed 200 56 200 40 17 16 0 16 64) 0 True = Inr (- 1)
   \<and> get_fdt_totalsize (hdr_bytes 0xd00dfeed 200 56 120 40 17 16 1 16 64) 0 True = Inr (- 1)
   \<and> (56 :: int) + 0xfffffff0 > 200
   \<and> get_fdt_totalsize (hdr_bytes 0xd00dfeed 200 56 120 40 17 16 0 16 0xfffffff0) 0 True = Inr 200"
  by code_simp

theorem get_fdt_totalsize_gating_witness:
  "get_fdt_totalsize (hdr_bytes 0xd00dfeed 200 56 120 40 17 16 0 16 64) 0 True
     = get_fdt_totalsize (hdr_bytes 0xd00dfeed 200 56 120 40 17 16 0 16 0xfffffff0) 0 True"
  using get_fdt_totalsize_gating by simp

section \<open>Claims about the depth counter\<close>

text \<open>
  C7. The claim: when the nesting depth reaches 32 the walk aborts instead of
  descending further, and therefore the walk terminates on every finite stream. The
  abort is there (lemmas \<open>enum_depth_guard\<close>, \<open>enum_depth_bounds\<close> and
  \<open>enum_depth_guard_deep_stream\<close>), but the conclusion fails in the code, in two ways.

  The depth counter is not the depth of the recursion. The function calls itself at
  every \<open>BEGIN_NODE\<close> it enters, and \<open>END_NODE\<close> only decrements the counter and
  goes on inside the callee, so no call returns before the walk ends (lemma
  \<open>enum_fdt_frames_Suc\<close>). For every tree whose nesting stays below 32 levels, laid
  out in the buffer as the structure block, and every bound target that no property of
  the tree matches, the walk started as \<open>get_fdt_prop\<close> starts it reaches the
  \<open>END\<close> tag with as many invocations alive as the tree has nodes, and two more:
  the stack that the guard is meant to protect grows with the number of nodes of a
  finite stream, not with their nesting, and a stream with enough nodes exhausts it.

  And the walker never compares \<open>pos\<close> with the size of the structure block: on a
  blob with a valid header whose structure block stops without an \<open>END\<close> tag, the
  lookup reads the next tag outside the buffer.
\<close>

theorem enum_fdt_nodes_recursion_unbounded:
  assumes "toks_at (image_buf ctx) (strings ctx) (pos ctx) (tokens (Node_item [] its) @ [End_tag])"
    and "items_ok 0 its"
    and "depth ctx = - 1" and "length (path ctx) = 33" and "res ctx = None"
    and "target_path ctx = Some (lead @ join_path segs @ trail)"
    and "lead = [] \<or> lead = ''/''" and "trail = [] \<or> trail = ''/''"
    and "segs \<noteq> []" and "\<forall>s\<in>set segs. s \<noteq> [] \<and> CHR ''/'' \<notin> set s \<and> NUL \<notin> set s"
    and "target_name ctx = Some tn" and "NUL \<notin> set tn"
    and "target_depth ctx = int (length segs)"
    and "length (image_buf ctx) < n"
    and "first_hit (target_matches segs tn) (preorder [] (pos ctx + 8) its) = None"
  shows "(\<exists>c. enum_fdt_frames n ctx = Some (Inr (None, c, node_count its + 2))
            \<and> enum_fdt_nodes n ctx = Some (Inr (None, c)) \<and> res c = None)
     \<and> get_fdt_totalsize noend_blob 0 True = Inr 168
     \<and> get_fdt_prop 200 noend_blob (Some ''/a'') (Some ''b'') = Some (Inl OutOfBounds)"
proof -
  from enum_fdt_frames_tree [OF assms]
  obtain c where c: "enum_fdt_frames n ctx = Some (Inr (None, c, node_count its + 2))"
    and r: "res c = None"
    by blast
  from c enum_fdt_frames_walk [of n ctx] have "enum_fdt_nodes n ctx = Some (Inr (None, c))"
    by simp
  moreover have "get_fdt_totalsize noend_blob 0 True = Inr 168"
    "get_fdt_prop 200 noend_blob (Some ''/a'') (Some ''b'') = Some (Inl OutOfBounds)"
    by code_simp+
  ultimately show ?thesis
    using c r by blast
qed

text \<open>
  With 33 nodes side by side under the root (nesting depth 1) the walk ends with 35
  invocations alive, more than the 33 that the cap would allow if it bounded the
  recursion.
\<close>

theorem enum_fdt_nodes_recursion_unbounded_witness:
  "(\<exists>c. enum_fdt_frames 413 (siblings_ctx 33) = Some (Inr (None, c, 35))
        \<and> enum_fdt_nodes 413 (siblings_ctx 33) = Some (Inr (None, c)) \<and> res c = None)
   \<and> items_ok 0 (siblings_items 33)
   \<and> get_fdt_prop 200 noend_blob (Some ''/a'') (Some ''b'') = Some (Inl OutOfBounds)"
proof -
  have t: "toks_at (image_buf (siblings_ctx 33)) (strings (siblings_ctx 33))
      (pos (siblings_ctx 33)) (tokens (Node_item [] (siblings_items 33)) @ [End_tag])"
    by code_simp
  have ok: "items_ok 0 (siblings_items 33)"
    by code_simp
  have c: "depth (siblings_ctx 33) = - 1" "length (path (siblings_ctx 33)) = 33"
    "res (siblings_ctx 33) = None"
    "target_path (siblings_ctx 33) = Some (''/'' @ join_path [''a''] @ [])"
    "target_name (siblings_ctx 33) = Some ''b''"
    "target_depth (siblings_ctx 33) = int (length [''a''])"
    "length (image_buf (siblings_ctx 33)) < 413"
    by code_simp+
  have s: "\<forall>s\<in>set [''a'']. s \<noteq> [] \<and> CHR ''/'' \<notin> set s \<and> NUL \<notin> set s" "NUL \<notin> set ''b''"
    by code_simp+
  have f: "first_hit (target_matches [''a''] ''b'')
      (preorder [] (pos (siblings_ctx 33) + 8) (siblings_items 33)) = None"
    by code_simp
  have k: "node_count (siblings_items 33) + 2 = 35"
    by code_simp
  from enum_fdt_nodes_recursion_unbounded [where ctx = "siblings_ctx 33"
      and its = "siblings_items 33" and lead = "''/''" and segs = "[''a'']" and trail = "[]"
      and tn = "''b''" and n = 413, OF t ok c(1,2,3,4) _ _ _ s(1) c(5) s(2) c(6,7) f]
  show ?thesis
    unfolding k using ok by blast
qed




section \<open>Claims about matching and the lookup\<close>

text \<open>
  C8. Let the structure block at \<open>pos\<close> be the encoding of a tree: the root node with
  the empty name, its items \<open>its\<close> (node names not empty, nesting below 32 levels,
  property lengths below \<open>INT_MAX\<close>, property names in the strings block), and the
  \<open>END\<close> tag. Let the walk start as \<open>get_fdt_prop\<close> starts it (depth \<open>-1\<close>, empty
  result slot) with a target bound: a path of one or more non-empty segments with an
  optional leading and trailing slash, the depth of that path, and a name. Then, with
  fuel above the length of the buffer, the walk returns, and its result slot holds
  the offset of the first property, in depth-first pre-order over the tree, whose name
  is the target name and whose ancestors match the segments of the path one by one;
  it is empty if the tree has no such property. Every property before the first
  match was rejected and none after it can take its place; when a result is recorded
  the walk has stopped on that very record (\<open>pos\<close> points to it), so nothing behind
  it was read. The call stack is outside this statement (see C7).
\<close>

theorem enum_fdt_nodes_first_preorder_match:
  assumes "toks_at (image_buf ctx) (strings ctx) (pos ctx) (tokens (Node_item [] its) @ [End_tag])"
    and "items_ok 0 its"
    and "depth ctx = - 1" and "length (path ctx) = 33" and "res ctx = None"
    and "target_path ctx = Some (lead @ join_path segs @ trail)"
    and "lead = [] \<or> lead = ''/''" and "trail = [] \<or> trail = ''/''"
    and "segs \<noteq> []" and "\<forall>s\<in>set segs. s \<noteq> [] \<and> CHR ''/'' \<notin> set s \<and> NUL \<notin> set s"
    and "target_name ctx = Some tn" and "NUL \<notin> set tn"
    and "target_depth ctx = int (length segs)"
    and "length (image_buf ctx) < n"
  shows "\<exists>c. enum_fdt_nodes n ctx = Some (Inr (None, c))
     \<and> res c = first_hit (target_matches segs tn) (preorder [] (pos ctx + 8) its)
     \<and> (\<forall>q. res c = Some q \<longrightarrow> pos c = q)"
  using assms by (rule walk_tree)

text \<open>
  On the sample blob: \<open>bootargs\<close> under \<open>/cpus\<close> is found at offset 152, behind the
  properties of the root and of \<open>/chosen\<close> and two \<open>END_NODE\<close> records;
  \<open>bootargs\<close> under \<open>c*/\<close> matches in \<open>/chosen\<close> (offset 92) and in \<open>/cpus\<close>
  (offset 152), and the walk stops at the first; \<open>reg\<close> under \<open>/chosen\<close> does not
  exist, and the walk ends at the \<open>END\<close> tag with an empty result slot. The lookup
  returns the same offsets.
\<close>

theorem enum_fdt_nodes_first_preorder_match_witness:
  "(\<exists>c. enum_fdt_nodes 197 (lookup_ctx ''/cpus'' 1 ''bootargs'') = Some (Inr (None, c))
        \<and> res c = Some 152 \<and> pos c = 152)
   \<and> (\<exists>c. enum_fdt_nodes 197 (lookup_ctx ''c*/'' 1 ''bootargs'') = Some (Inr (None, c))
        \<and> res c = Some 92 \<and> pos c = 92)
   \<and> (\<exists>c. enum_fdt_nodes 197 (lookup_ctx ''/chosen'' 1 ''reg'') = Some (Inr (None, c))
        \<and> res c = None)
   \<and> get_fdt_prop 197 sample_blob (Some ''/cpus'') (Some ''bootargs'') = Some (Inr (Some 152))
   \<and> get_fdt_prop 197 sample_blob (Some ''c*/'') (Some ''bootargs'') = Some (Inr (Some 92))"
proof -
  have t: "toks_at (image_buf (lookup_ctx p d nm)) (strings (lookup_ctx p d nm))
      (pos (lookup_ctx p d nm)) (tokens (Node_item [] sample_items) @ [End_tag])" for p d nm
    unfolding lookup_ctx_def by code_simp
  have ok: "items_ok 0 sample_items"
    by code_simp
  have c: "depth (lookup_ctx p d nm) = - 1" "length (path (lookup_ctx p d nm)) = 33"
    "res (lookup_ctx p d nm) = None" "target_path (lookup_ctx p d nm) = Some p"
    "target_name (lookup_ctx p d nm) = Some nm" "target_depth (lookup_ctx p d nm) = d"
    "length (image_buf (lookup_ctx p d nm)) < 197" "pos (lookup_ctx p d nm) + 8 = 64" for p d nm
    unfolding lookup_ctx_def by code_simp+
  have n: "NUL \<notin> set ''bootargs''" "NUL \<notin> set ''reg''"
    by code_simp+
  have s1: "\<forall>s\<in>set [''cpus'']. s \<noteq> [] \<and> CHR ''/'' \<notin> set s \<and> NUL \<notin> set s"
    and s2: "\<forall>s\<in>set [''c*'']. s \<noteq> [] \<and> CHR ''/'' \<notin> set s \<and> NUL \<notin> set s"
    and s3: "\<forall>s\<in>set [''chosen'']. s \<noteq> [] \<and> CHR ''/'' \<notin> set s \<and> NUL \<notin> set s"
    by code_simp+
  have f1: "first_hit (target_matches [''cpus''] ''bootargs'') (preorder [] 64 sample_items)
      = Some 152"
    and f2: "first_hit (target_matches [''c*''] ''bootargs'') (preorder [] 64 sample_items)
      = Some 92"
    and f3: "first_hit (target_matches [''chosen''] ''reg'') (preorder [] 64 sample_items)
      = None"
    by code_simp+
  have g: "get_fdt_prop 197 sample_blob (Some ''/cpus'') (Some ''bootargs'') = Some (Inr (Some 152))"
    "get_fdt_prop 197 sample_blob (Some ''c*/'') (Some ''bootargs'') = Some (Inr (Some 92))"
    by code_simp+
  have "\<exists>c. enum_fdt_nodes 197 (lookup_ctx ''/cpus'' 1 ''bootargs'') = Some (Inr (None, c))
        \<and> res c = Some 152 \<and> pos c = 152"
    using enum_fdt_nodes_first_preorder_match [where ctx = "lookup_ctx ''/cpus'' 1 ''bootargs''"
        and its = sample_items and lead = "''/''" and segs = "[''cpus'']" and trail = "[]"
        and tn = "''bootargs''" and n = 197, OF t ok c(1,2,3) _ _ _ _ s1 c(5) n(1) _ c(7)]
    by (auto simp: c f1)
  moreover
  have "\<exists>c. enum_fdt_nodes 197 (lookup_ctx ''c*/'' 1 ''bootargs'') = Some (Inr (None, c))
        \<and> res c = Some 92 \<and> pos c = 92"
    using enum_fdt_nodes_first_preorder_match [where ctx = "lookup_ctx ''c*/'' 1 ''bootargs''"
        and its = sample_items and lead = "[]" and segs = "[''c*'']" and trail = "''/''"
        and tn = "''bootargs''" and n = 197, OF t ok c(1,2,3) _ _ _ _ s2 c(5) n(1) _ c(7)]
    by (auto simp: c f2)
  moreover
  have "\<exists>c. enum_fdt_nodes 197 (lookup_ctx ''/chosen'' 1 ''reg'') = Some (Inr (None, c))
        \<and> res c = None"
    using enum_fdt_nodes_first_preorder_match [where ctx = "lookup_ctx ''/chosen'' 1 ''reg''"
        and its = sample_items and lead = "''/''" and segs = "[''chosen'']" and trail = "[]"
        and tn = "''reg''" and n = 197, OF t ok c(1,2,3) _ _ _ _ s3 c(5) n(2) _ c(7)]
    by (auto simp: c f3)
  ultimately show ?thesis
    using g by blast
qed

text \<open>
  C10. A path with no segments (\<open>get_path_depth\<close> gives 0, as for the empty path,
  \<open>/\<close> and \<open>//\<close>) never yields a property: with enough fuel the lookup returns NULL
  unless a read leaves the buffer. A property directly under the root is met at depth 0,
  and the matcher accepts only at a depth above 0, so no lookup reaches it.
\<close>

theorem get_fdt_prop_root_unreachable:
  "(get_path_depth p = 0 \<and> length img < fuel
    \<longrightarrow> get_fdt_prop fuel img (Some p) name = Some (Inr None)
        \<or> (\<exists>f. get_fdt_prop fuel img (Some p) name = Some (Inl f)))
   \<and> get_path_depth '''' = 0 \<and> get_path_depth ''/'' = 0 \<and> get_path_depth ''//'' = 0
   \<and> (check_search_target ctx pr = Inr 0 \<longrightarrow> 0 < depth ctx)"
proof -
  have a: "get_fdt_prop fuel img (Some p) name = Some (Inr None)
        \<or> (\<exists>f. get_fdt_prop fuel img (Some p) name = Some (Inl f))"
    if "get_path_depth p = 0" and "length img < fuel"
    using that by (intro get_fdt_prop_no_segments) simp_all
  have b: "get_path_depth '''' = 0" "get_path_depth ''/'' = 0" "get_path_depth ''//'' = 0"
    by code_simp+
  have c: "0 < depth ctx" if "check_search_target ctx pr = Inr 0"
    using check_search_target_match_depth [OF that] by simp
  from a b c show ?thesis
    by blast
qed

text \<open>
  The root of the sample blob carries \<open>bootargs\<close> (the record at offset 64, its name
  at offset 180 of the buffer), and the lookup with path \<open>/\<close> does not return it.
\<close>

theorem get_fdt_prop_root_unreachable_witness:
  "get_path_depth ''/'' = 0 \<and> length sample_blob < 200
   \<and> be32 sample_blob 64 = Inr FDT_PROP \<and> be32 sample_blob (64 + 8) = Inr 0
   \<and> c_strcmp sample_blob (180 + 0) ''bootargs'' = Inr True
   \<and> get_fdt_prop 200 sample_blob (Some ''/'') (Some ''bootargs'') = Some (Inr None)
   \<and> get_fdt_prop 200 sample_blob (Some ''/'') (Some ''bootargs'') \<noteq> Some (Inr (Some 64))
   \<and> check_search_target match_ctx 92 = Inr 0 \<and> 0 < depth match_ctx"
proof -
  have h: "get_path_depth ''/'' = 0 \<and> length sample_blob < 200"
    by code_simp
  have m: "check_search_target match_ctx 92 = Inr 0"
    by code_simp
  have e: "be32 sample_blob 64 = Inr FDT_PROP \<and> be32 sample_blob (64 + 8) = Inr 0
      \<and> c_strcmp sample_blob (180 + 0) ''bootargs'' = Inr True
      \<and> get_fdt_prop 200 sample_blob (Some ''/'') (Some ''bootargs'') = Some (Inr None)"
    by code_simp
  note t = get_fdt_prop_root_unreachable [where p = "''/''" and img = sample_blob and fuel = 200
      and name = "Some ''bootargs''" and ctx = match_ctx and pr = 92]
  from t h have "get_fdt_prop 200 sample_blob (Some ''/'') (Some ''bootargs'') \<noteq> Some (Inr (Some 64))"
    by auto
  moreover from t m have "0 < depth match_ctx"
    by blast
  ultimately show ?thesis
    using h m e by blast
qed

text \<open>
  C2, as the code has it. The claim: the lookup with path \<open>//\<close> fails with a
  path-syntax error code distinct from not-found. In the code \<open>get_path_depth\<close> gives 0
  for \<open>//\<close> (no error), the walk runs with target depth 0 and records nothing, and
  \<open>get_fdt_prop\<close> returns NULL; a path that \<open>get_path_depth\<close> does reject (a negative
  code) gives the same NULL. The result type is a property pointer: there is no error
  code at the public boundary.
\<close>

theorem get_fdt_prop_double_slash:
  "get_path_depth ''//'' = 0
   \<and> (length img < fuel
    \<longrightarrow> get_fdt_prop fuel img (Some ''//'') name = Some (Inr None)
        \<or> (\<exists>f. get_fdt_prop fuel img (Some ''//'') name = Some (Inl f)))
   \<and> (get_path_depth p < 0 \<and> length img < fuel
    \<longrightarrow> get_fdt_prop fuel img (Some p) name = Some (Inr None)
        \<or> (\<exists>f. get_fdt_prop fuel img (Some p) name = Some (Inl f)))"
proof -
  have z: "get_path_depth ''//'' = 0"
    by code_simp
  have a: "get_fdt_prop fuel img (Some ''//'') name = Some (Inr None)
        \<or> (\<exists>f. get_fdt_prop fuel img (Some ''//'') name = Some (Inl f))"
    if "length img < fuel"
    using that z by (intro get_fdt_prop_no_segments) simp_all
  have b: "get_fdt_prop fuel img (Some p) name = Some (Inr None)
        \<or> (\<exists>f. get_fdt_prop fuel img (Some p) name = Some (Inl f))"
    if "get_path_depth p < 0" and "length img < fuel"
    using that by (intro get_fdt_prop_no_segments) simp_all
  from z a b show ?thesis
    by blast
qed

theorem get_fdt_prop_double_slash_witness:
  "length sample_blob < 200 \<and> get_path_depth ''/chosen//x'' < 0
   \<and> get_fdt_prop 200 sample_blob (Some ''//'') (Some ''bootargs'') \<noteq> Some (Inr (Some 64))
   \<and> get_fdt_prop 200 sample_blob (Some ''/chosen//x'') (Some ''bootargs'') \<noteq> Some (Inr (Some 92))"
proof -
  have h: "length sample_blob < 200" "get_path_depth ''/chosen//x'' < 0"
    by code_simp+
  note t = get_fdt_prop_double_slash [where img = sample_blob and fuel = 200
      and name = "Some ''bootargs''" and p = "''/chosen//x''"]
  from t h have "get_fdt_prop 200 sample_blob (Some ''//'') (Some ''bootargs'') \<noteq> Some (Inr (Some 64))"
    by auto
  moreover from t h
  have "get_fdt_prop 200 sample_blob (Some ''/chosen//x'') (Some ''bootargs'') \<noteq> Some (Inr (Some 92))"
    by auto
  ultimately show ?thesis
    using h by blast
qed

theorem get_fdt_prop_double_slash_is_not_found:
  "get_path_depth ''//'' = 0
   \<and> get_fdt_prop 50 sample_blob (Some ''//'') (Some ''bootargs'') = Some (Inr None)
   \<and> get_fdt_prop 50 sample_blob (Some ''/chosen'') (Some ''missing'') = Some (Inr None)
   \<and> get_path_depth ''/chosen//x'' = - 12
   \<and> get_fdt_prop 50 sample_blob (Some ''/chosen//x'') (Some ''bootargs'') = Some (Inr None)"
  by code_simp

text \<open>
  C5, as the code has it. The integer accessor returns \<open>-1\<close> when no property matches
  and when the matched property's length is not 4. The claim adds that this sentinel
  cannot be told from a property whose four bytes are \<open>0xffffffff\<close>; but the function
  returns \<open>int64_t\<close>, and a decoded \<open>uint32_t\<close> widens to a value from 0 to
  \<open>2 ^ 32 - 1\<close>: \<open>0xffffffff\<close> comes back as 4294967295, never as \<open>-1\<close>.
\<close>

theorem get_fdt_prop_u32_sentinel:
  "(get_fdt_prop fuel img pth name = Some (Inr None)
    \<longrightarrow> get_fdt_prop_u32 fuel img pth name = Some (Inr (- 1)))
   \<and> (get_fdt_prop fuel img pth name = Some (Inr (Some pr))
      \<and> be32 img (pr + 4) = Inr len \<and> len \<noteq> 4
    \<longrightarrow> get_fdt_prop_u32 fuel img pth name = Some (Inr (- 1)))
   \<and> (get_fdt_prop fuel img pth name = Some (Inr (Some pr))
      \<and> be32 img (pr + 4) = Inr 4 \<and> be32 img (pr + 12) = Inr w
    \<longrightarrow> get_fdt_prop_u32 fuel img pth name = Some (Inr (uint w))
        \<and> 0 \<le> uint w \<and> uint w < 2 ^ 32)"
proof -
  have a: "get_fdt_prop_u32 fuel img pth name = Some (Inr (- 1))"
    if "get_fdt_prop fuel img pth name = Some (Inr None)"
    using that by (simp add: get_fdt_prop_u32_def get_fdt_prop_val_def)
  have b: "get_fdt_prop_u32 fuel img pth name = Some (Inr (- 1))"
    if "get_fdt_prop fuel img pth name = Some (Inr (Some pr))"
      and "be32 img (pr + 4) = Inr len" and "len \<noteq> 4"
  proof -
    have "sint len \<noteq> 4"
    proof
      assume "sint len = 4"
      then have "word_of_int (sint len) = (word_of_int 4 :: 32 word)"
        by simp
      then have "len = 4"
        by simp
      with that(3) show False by simp
    qed
    with that show ?thesis
      by (simp add: get_fdt_prop_u32_def get_fdt_prop_val_def)
  qed
  have c: "get_fdt_prop_u32 fuel img pth name = Some (Inr (uint w))
        \<and> 0 \<le> uint w \<and> uint w < 2 ^ 32"
    if "get_fdt_prop fuel img pth name = Some (Inr (Some pr))"
      and "be32 img (pr + 4) = Inr 4" and "be32 img (pr + 12) = Inr w"
  proof -
    have "uint w < 2 ^ 32"
      using uint_bounded [of w] by simp
    with that show ?thesis
      by (simp add: get_fdt_prop_u32_def get_fdt_prop_val_def)
  qed
  from a b c show ?thesis
    by blast
qed

theorem get_fdt_prop_u32_sentinel_witness:
  "get_fdt_prop_u32 50 sample_blob (Some ''/chosen'') (Some ''missing'') = Some (Inr (- 1))
   \<and> get_fdt_prop_u32 50 sample_blob (Some ''/chosen'') (Some ''bootargs'') = Some (Inr (- 1))
   \<and> get_fdt_prop_u32 50 sample_blob (Some ''/chosen'') (Some ''mask'') = Some (Inr (uint (0xffffffff :: 32 word)))"
proof -
  have h1: "get_fdt_prop 50 sample_blob (Some ''/chosen'') (Some ''missing'') = Some (Inr None)"
    by code_simp
  have h2: "get_fdt_prop 50 sample_blob (Some ''/chosen'') (Some ''bootargs'') = Some (Inr (Some 92))
      \<and> be32 sample_blob (92 + 4) = Inr 14 \<and> (14 :: 32 word) \<noteq> 4"
    by code_simp
  have h3: "get_fdt_prop 50 sample_blob (Some ''/chosen'') (Some ''mask'') = Some (Inr (Some 120))
      \<and> be32 sample_blob (120 + 4) = Inr 4 \<and> be32 sample_blob (120 + 12) = Inr 0xffffffff"
    by code_simp
  from get_fdt_prop_u32_sentinel [where fuel = 50 and img = sample_blob
      and pth = "Some ''/chosen''" and name = "Some ''missing''"] h1
  have "get_fdt_prop_u32 50 sample_blob (Some ''/chosen'') (Some ''missing'') = Some (Inr (- 1))"
    by blast
  moreover from get_fdt_prop_u32_sentinel [where fuel = 50 and img = sample_blob
      and pth = "Some ''/chosen''" and name = "Some ''bootargs''" and pr = 92 and len = 14] h2
  have "get_fdt_prop_u32 50 sample_blob (Some ''/chosen'') (Some ''bootargs'') = Some (Inr (- 1))"
    by blast
  moreover from get_fdt_prop_u32_sentinel [where fuel = 50 and img = sample_blob
      and pth = "Some ''/chosen''" and name = "Some ''mask''" and pr = 120
      and w = "0xffffffff"] h3
  have "get_fdt_prop_u32 50 sample_blob (Some ''/chosen'') (Some ''mask'')
      = Some (Inr (uint (0xffffffff :: 32 word)))"
    by blast
  ultimately show ?thesis
    by blast
qed

theorem get_fdt_prop_u32_all_ones_is_not_sentinel:
  "be32 sample_blob 132 = Inr 0xffffffff
   \<and> get_fdt_prop_u32 50 sample_blob (Some ''/chosen'') (Some ''mask'') = Some (Inr 4294967295)
   \<and> get_fdt_prop_u32 50 sample_blob (Some ''/chosen'') (Some ''missing'') = Some (Inr (- 1))
   \<and> (4294967295 :: int) \<noteq> - 1"
  by code_simp

text \<open>
  C9. On a property of the target name, at the depth of the pattern,
  \<open>check_search_target\<close> returns 0 exactly when every segment of the pattern matches
  the ancestor name of its level; and a segment \<open>seg*\<close> matches a name exactly when
  \<open>seg\<close> is a prefix of it.
\<close>

theorem check_search_target_wildcard:
  assumes "target_path ctx = Some (lead @ join_path segs @ trail)"
    and "lead = [] \<or> lead = ''/''" and "trail = [] \<or> trail = ''/''"
    and "segs \<noteq> []" and "\<forall>s\<in>set segs. s \<noteq> [] \<and> CHR ''/'' \<notin> set s \<and> NUL \<notin> set s"
    and "target_name ctx = Some tn"
    and "depth ctx = int (length segs)" and "target_depth ctx = int (length segs)"
    and "be32 (image_buf ctx) (pr + 8) = Inr nameoff"
    and "c_strcmp (image_buf ctx) (strings ctx + unat nameoff) tn = Inr True"
    and "names_at (image_buf ctx) (path ctx) 0 names" and "length names = length segs"
  shows "(check_search_target ctx pr = Inr 0 \<longleftrightarrow> list_all2 seg_matches segs names)
     \<and> (seg_matches (seg @ ''*'') nm \<longleftrightarrow> prefix seg nm)"
  using check_search_target_segments [OF assms] seg_matches_wildcard [of seg nm]
  by simp

text \<open>
  The pattern \<open>/eth*\<close> accepts the ancestor names \<open>eth0\<close>, \<open>eth\<close> and
  \<open>ethernet\<close> and rejects \<open>et\<close> (code \<open>-6\<close>: the name is shorter than the
  prefix); on the sample blob \<open>/c*\<close> accepts the node \<open>chosen\<close>.
\<close>

theorem check_search_target_wildcard_witness:
  "check_search_target (wild_ctx ''eth0'') 0 = Inr 0
   \<and> check_search_target (wild_ctx ''eth'') 0 = Inr 0
   \<and> check_search_target (wild_ctx ''ethernet'') 0 = Inr 0
   \<and> check_search_target (wild_ctx ''et'') 0 \<noteq> Inr 0
   \<and> check_search_target (wild_ctx ''et'') 0 = Inr (- 6)
   \<and> check_search_target match_ctx 92 = Inr 0
   \<and> get_path_depth ''/eth*'' = 1"
proof -
  note t = check_search_target_wildcard [where lead = "''/''" and trail = "[]" and tn = "''p''"
      and nameoff = 0 and segs = "[''eth*'']" and seg = "''eth''", THEN conjunct1]
  have "check_search_target (wild_ctx ''eth0'') 0 = Inr 0
      \<longleftrightarrow> list_all2 seg_matches [''eth*''] [''eth0'']"
    by (rule t; code_simp)
  moreover have "list_all2 seg_matches [''eth*''] [''eth0'']"
    by (simp add: seg_matches_def)
  ultimately have a: "check_search_target (wild_ctx ''eth0'') 0 = Inr 0"
    by blast
  have "check_search_target (wild_ctx ''eth'') 0 = Inr 0
      \<longleftrightarrow> list_all2 seg_matches [''eth*''] [''eth'']"
    by (rule t; code_simp)
  moreover have "list_all2 seg_matches [''eth*''] [''eth'']"
    by (simp add: seg_matches_def)
  ultimately have b: "check_search_target (wild_ctx ''eth'') 0 = Inr 0"
    by blast
  have "check_search_target (wild_ctx ''ethernet'') 0 = Inr 0
      \<longleftrightarrow> list_all2 seg_matches [''eth*''] [''ethernet'']"
    by (rule t; code_simp)
  moreover have "list_all2 seg_matches [''eth*''] [''ethernet'']"
    by (simp add: seg_matches_def)
  ultimately have c: "check_search_target (wild_ctx ''ethernet'') 0 = Inr 0"
    by blast
  have "check_search_target (wild_ctx ''et'') 0 = Inr 0
      \<longleftrightarrow> list_all2 seg_matches [''eth*''] [''et'']"
    by (rule t; code_simp)
  moreover have "\<not> list_all2 seg_matches [''eth*''] [''et'']"
    by (simp add: seg_matches_def)
  ultimately have d: "check_search_target (wild_ctx ''et'') 0 \<noteq> Inr 0"
    by blast
  have "check_search_target match_ctx 92 = Inr 0
      \<longleftrightarrow> list_all2 seg_matches [''c*''] [''chosen'']"
    by (rule check_search_target_wildcard [where lead = "''/''" and trail = "[]"
          and tn = "''bootargs''" and nameoff = 0 and segs = "[''c*'']" and seg = "''c''",
          THEN conjunct1]; code_simp)
  moreover have "list_all2 seg_matches [''c*''] [''chosen'']"
    by (simp add: seg_matches_def)
  ultimately have f: "check_search_target match_ctx 92 = Inr 0"
    by blast
  have e: "check_search_target (wild_ctx ''et'') 0 = Inr (- 6)" "get_path_depth ''/eth*'' = 1"
    by code_simp+
  from a b c d e f show ?thesis
    by blast
qed

end
